theory Spec2Isabelle
  imports Main "HOL-Library.Multiset"
begin

section \<open>The Go primitives the package relies on\<close>

text \<open>
  The package \<open>go_tasks\<close> is built from four primitives of Go: channels, \<open>sync.WaitGroup\<close>,
  \<open>sync.Once\<close> and \<open>defer\<close>. Each is modelled with the outcomes Go gives it: an operation
  either completes, blocks (the step is not enabled) or panics.
\<close>

datatype panic = TaskPanic | SendOnClosedChannel | CloseOfClosedChannel | NegativeWaitGroupCounter

text \<open>A channel: its buffer (oldest value first), its capacity and whether it is closed.\<close>

record 'a chan =
  chan_buf :: "'a list"
  chan_cap :: nat
  chan_closed :: bool

text \<open>\<open>make(chan T, n)\<close>; \<open>make(chan T)\<close> is \<open>make_chan 0\<close>.\<close>

definition make_chan :: "nat \<Rightarrow> 'a chan" where
  "make_chan n = \<lparr>chan_buf = [], chan_cap = n, chan_closed = False\<rparr>"

text \<open>\<open>close(c)\<close> panics on a channel that is closed already.\<close>

definition chan_close :: "'a chan \<Rightarrow> panic + 'a chan" where
  "chan_close c = (if chan_closed c then Inl CloseOfClosedChannel
                   else Inr (c\<lparr>chan_closed := True\<rparr>))"

datatype 'a attempt = Blocks | Panic panic | Ok 'a

text \<open>
  \<open>c <- v\<close> panics on a closed channel, completes while the buffer has room and blocks
  otherwise (no receiver is assumed to be waiting, so a send that is enabled here is one
  that cannot block in Go).
\<close>

definition chan_send :: "'a \<Rightarrow> 'a chan \<Rightarrow> 'a chan attempt" where
  "chan_send v c = (if chan_closed c then Panic SendOnClosedChannel
                    else if length (chan_buf c) < chan_cap c then Ok (c\<lparr>chan_buf := chan_buf c @ [v]\<rparr>)
                    else Blocks)"

text \<open>
  \<open>v, ok := <-c\<close>: the oldest buffered value with \<open>ok = true\<close> (\<open>Some v\<close>); on an empty
  closed channel the zero value with \<open>ok = false\<close> (\<open>None\<close>); on an empty open channel the
  receive blocks (the result \<open>None\<close> of the function).
\<close>

definition chan_recv :: "'a chan \<Rightarrow> ('a option \<times> 'a chan) option" where
  "chan_recv c = (case chan_buf c of
                    v # vs \<Rightarrow> Some (Some v, c\<lparr>chan_buf := vs\<rparr>)
                  | [] \<Rightarrow> if chan_closed c then Some (None, c) else None)"

text \<open>\<open>wg.Add(delta)\<close> panics when the counter would become negative; \<open>wg.Done()\<close> is \<open>wg.Add(-1)\<close>.\<close>

definition wg_Add :: "int \<Rightarrow> int \<Rightarrow> panic + int" where
  "wg_Add delta n = (if n + delta < 0 then Inl NegativeWaitGroupCounter else Inr (n + delta))"

definition wg_Done :: "int \<Rightarrow> panic + int" where
  "wg_Done n = wg_Add (- 1) n"

text \<open>\<open>wg.Wait()\<close> returns only when the counter is zero.\<close>

definition wg_Wait :: "int \<Rightarrow> bool" where
  "wg_Wait n \<longleftrightarrow> n = 0"

section \<open>Tasks (task.go)\<close>

text \<open>
  \<open>type Task func(cancelC <-chan struct{}) error\<close>. The body of a task is arbitrary code of
  the caller; what the group sees of it is how the call ends. A task is modelled by what its
  body does given whether the cancellation channel is readable (closed): it returns \<open>nil\<close>
  (\<open>Returns None\<close>) or an error (\<open>Returns (Some e)\<close>), it panics, or it has not returned yet
  (\<open>Blocked\<close>). The channel is receive-only for the task, so a task cannot close it.
\<close>

datatype 'e outcome = Returns "'e option" | Panics | Blocked

type_synonym 'e Task = "bool \<Rightarrow> 'e outcome"

text \<open>Error values: the sentinel \<open>ErrTaskCancelled\<close> and any other error, by its message.\<close>

datatype error = ErrTaskCancelled | Err string

section \<open>The task group (fixed\_task\_group.go)\<close>

text \<open>
  The struct \<open>FixedTaskGroup\<close>. \<open>wg\<close> is the counter of the wait group, \<open>cancelOnce\<close> the
  done flag of the \<open>sync.Once\<close>.
\<close>

record 'e FixedTaskGroup =
  tasks :: "'e Task list"
  wg :: int
  errC :: "'e chan"
  cancelC :: "unit chan"
  cancelOnce :: bool

text \<open>The second version of the struct (with \<open>DoneC\<close>) has one more field, \<open>doneC\<close>.\<close>

record 'e FixedTaskGroup2 = "'e FixedTaskGroup" +
  doneC :: "unit chan"

text \<open>
  A goroutine started by \<open>startTask\<close> is at one of these points of
  \<open>go func() { defer g.wg.Done(); if err := task(g.cancelC); err != nil { g.errC <- err } }()\<close>:
  \<^item> \<open>Spawned\<close>: started, \<open>task\<close> not called yet (the \<open>defer\<close> statement only registers the call);
  \<^item> \<open>Running\<close>: inside \<open>task(g.cancelC)\<close>;
  \<^item> \<open>Sending e\<close>: the task returned the error \<open>e\<close>, at \<open>g.errC <- err\<close>;
  \<^item> \<open>Deferred q\<close>: the function body is left, normally (\<open>None\<close>) or by a panic (\<open>Some q\<close>);
    the deferred \<open>g.wg.Done()\<close> runs next;
  \<^item> \<open>Exited\<close>: the goroutine has ended;
  \<^item> \<open>Unwound q\<close>: the deferred calls have run for the panic \<open>q\<close>, which now ends the program.
\<close>

datatype 'e gpc = Spawned | Running | Sending 'e | Deferred "panic option" | Exited | Unwound panic

text \<open>
  The watcher goroutine started at the end of \<open>NewFixedTaskGroup\<close>: not started yet; at
  statement \<open>n\<close> of its body with the stack of deferred calls (most recent first); returning,
  with the deferred calls still to run and the panic in flight, if any; ended; or unwound by a
  panic.
\<close>

datatype 'd watcher = NotSpawned | WRunning nat "'d list" | WReturning "'d list" "panic option"
  | WExited | WUnwound panic

text \<open>What a step did. The history of events is kept beside the state; no step reads it.\<close>

datatype 'e event =
    Started nat | CtorReturned | Invoked nat | Finished nat "'e outcome" | Sent nat 'e
  | DoneCalled nat | Raised panic | Crashed panic | Waited | DeferPushed | ClosedErrC
  | ClosedDoneC | WatcherExited | CancelCalled bool | RecvErr "'e option" | RecvDone

text \<open>
  The program around one group: the group \<open>tg\<close>, the tasks the \<open>range\<close> loop of the
  constructor has still to start, the task goroutines in the order they were started (each
  with the task it captured), the watcher, the panic that ended the program, if any, and the
  history.
\<close>

record ('e, 'd, 'g) prog =
  tg :: 'g
  todo :: "'e Task list"
  gos :: "('e Task \<times> 'e gpc) list"
  watcher :: "'d watcher"
  crash :: "panic option"
  hist :: "'e event list"

definition emit :: "'e event \<Rightarrow> ('e, 'd, 'g) prog \<Rightarrow> ('e, 'd, 'g) prog" where
  "emit ev p = p\<lparr>hist := hist p @ [ev]\<rparr>"

definition set_pc :: "nat \<Rightarrow> 'e gpc \<Rightarrow> ('e, 'd, 'g) prog \<Rightarrow> ('e, 'd, 'g) prog" where
  "set_pc i pc p = p\<lparr>gos := (gos p)[i := (fst (gos p ! i), pc)]\<rparr>"

definition die :: "panic \<Rightarrow> ('e, 'd, 'g) prog \<Rightarrow> ('e, 'd, 'g) prog" where
  "die q p = emit (Crashed q) (p\<lparr>crash := Some q\<rparr>)"

subsection \<open>startTask\<close>

text \<open>
  \<open>g.tasks = append(g.tasks, task); g.wg.Add(1); go func() {...}()\<close>: the task is appended to
  \<open>g.tasks\<close>, the counter is incremented and a goroutine that captures the task is started.
\<close>

definition startTask ::
  "'e Task \<Rightarrow> ('e, 'd, ('e, 'z) FixedTaskGroup_scheme) prog
     \<Rightarrow> panic + ('e, 'd, ('e, 'z) FixedTaskGroup_scheme) prog" where
  "startTask task p =
     (let g = (tg p)\<lparr>tasks := tasks (tg p) @ [task]\<rparr> in
      case wg_Add 1 (wg g) of
        Inl q \<Rightarrow> Inl q
      | Inr n \<Rightarrow> Inr (p\<lparr>tg := g\<lparr>wg := n\<rparr>, gos := gos p @ [(task, Spawned)]\<rparr>))"

subsection \<open>Cancel\<close>

text \<open>
  \<open>g.cancelOnce.Do(func() { close(g.cancelC) })\<close>: \<open>Once.Do\<close> runs the function only if no
  call of \<open>Do\<close> has run it before, under the mutex of the \<open>Once\<close>, so concurrent calls of
  \<open>Cancel\<close> run one after the other; the \<open>Once\<close> is marked done also when the function panics.
\<close>

definition Cancel :: "('e, 'z) FixedTaskGroup_scheme \<Rightarrow> panic + ('e, 'z) FixedTaskGroup_scheme" where
  "Cancel g =
     (if cancelOnce g then Inr g
      else case chan_close (cancelC g) of
             Inl q \<Rightarrow> Inl q
           | Inr c \<Rightarrow> Inr (g\<lparr>cancelC := c, cancelOnce := True\<rparr>))"

subsection \<open>ErrC and DoneC\<close>

definition ErrC :: "('e, 'z) FixedTaskGroup_scheme \<Rightarrow> 'e chan" where
  "ErrC g = errC g"

definition DoneC :: "('e, 'z) FixedTaskGroup2_scheme \<Rightarrow> unit chan" where
  "DoneC g = doneC g"

subsection \<open>The steps of the program\<close>

text \<open>
  The constructor, after the struct literal: one iteration of
  \<open>for _, task := range tasks { tg.startTask(task) }\<close> (the loop ranges over the argument,
  not over \<open>tg.tasks\<close>), or, once the loop is over, \<open>go func() {...}()\<close> for the watcher and
  \<open>return tg\<close>.
\<close>

definition step_construct ::
  "('e, 'd, ('e, 'z) FixedTaskGroup_scheme) prog
     \<Rightarrow> ('e, 'd, ('e, 'z) FixedTaskGroup_scheme) prog option" where
  "step_construct p =
     (case todo p of
        task # rest \<Rightarrow>
          (case startTask task (p\<lparr>todo := rest\<rparr>) of
             Inl q \<Rightarrow> Some (die q p)
           | Inr p' \<Rightarrow> Some (emit (Started (length (gos p))) p'))
      | [] \<Rightarrow>
          (if watcher p = NotSpawned then Some (emit CtorReturned (p\<lparr>watcher := WRunning 0 []\<rparr>))
           else None))"

text \<open>One step of the \<open>i\<close>-th task goroutine.\<close>

definition step_go ::
  "nat \<Rightarrow> ('e, 'd, ('e, 'z) FixedTaskGroup_scheme) prog
     \<Rightarrow> ('e, 'd, ('e, 'z) FixedTaskGroup_scheme) prog option" where
  "step_go i p =
     (if length (gos p) \<le> i then None
      else case snd (gos p ! i) of
        Spawned \<Rightarrow> Some (set_pc i Running (emit (Invoked i) p))
      | Running \<Rightarrow>
          (case fst (gos p ! i) (chan_closed (cancelC (tg p))) of
             Blocked \<Rightarrow> None
           | Panics \<Rightarrow> Some (set_pc i (Deferred (Some TaskPanic)) (emit (Finished i Panics) p))
           | Returns None \<Rightarrow> Some (set_pc i (Deferred None) (emit (Finished i (Returns None)) p))
           | Returns (Some e) \<Rightarrow> Some (set_pc i (Sending e) (emit (Finished i (Returns (Some e))) p)))
      | Sending e \<Rightarrow>
          (case chan_send e (errC (tg p)) of
             Blocks \<Rightarrow> None
           | Panic q \<Rightarrow> Some (set_pc i (Deferred (Some q)) (emit (Raised q) p))
           | Ok c \<Rightarrow> Some (set_pc i (Deferred None) (emit (Sent i e) (p\<lparr>tg := (tg p)\<lparr>errC := c\<rparr>\<rparr>))))
      | Deferred q \<Rightarrow>
          (case wg_Done (wg (tg p)) of
             Inl q' \<Rightarrow> Some (set_pc i (Unwound q') (emit (Raised q') p))
           | Inr n \<Rightarrow>
               Some (set_pc i (case q of None \<Rightarrow> Exited | Some q' \<Rightarrow> Unwound q')
                      (emit (DoneCalled i) (p\<lparr>tg := (tg p)\<lparr>wg := n\<rparr>\<rparr>))))
      | Exited \<Rightarrow> None
      | Unwound q \<Rightarrow> Some (die q p))"

text \<open>
  A call of \<open>Cancel\<close> by a holder of the group, which exists once the constructor has
  returned. A panic in the caller ends the program.
\<close>

definition step_cancel ::
  "('e, 'd, ('e, 'z) FixedTaskGroup_scheme) prog
     \<Rightarrow> ('e, 'd, ('e, 'z) FixedTaskGroup_scheme) prog option" where
  "step_cancel p =
     (if watcher p = NotSpawned then None
      else case Cancel (tg p) of
             Inl q \<Rightarrow> Some (die q p)
           | Inr g \<Rightarrow> Some (emit (CancelCalled (\<not> cancelOnce (tg p))) (p\<lparr>tg := g\<rparr>)))"

text \<open>A receive \<open>err, ok := <-tg.ErrC()\<close> by a holder of the group.\<close>

definition step_recv_err ::
  "('e, 'd, ('e, 'z) FixedTaskGroup_scheme) prog
     \<Rightarrow> ('e, 'd, ('e, 'z) FixedTaskGroup_scheme) prog option" where
  "step_recv_err p =
     (if watcher p = NotSpawned then None
      else case chan_recv (ErrC (tg p)) of
             None \<Rightarrow> None
           | Some (v, c) \<Rightarrow> Some (emit (RecvErr v) (p\<lparr>tg := (tg p)\<lparr>errC := c\<rparr>\<rparr>)))"

text \<open>A receive \<open><-tg.DoneC()\<close> by a holder of the group (second version only).\<close>

definition step_recv_done ::
  "('e, 'd, ('e, 'z) FixedTaskGroup2_scheme) prog
     \<Rightarrow> ('e, 'd, ('e, 'z) FixedTaskGroup2_scheme) prog option" where
  "step_recv_done p =
     (if watcher p = NotSpawned then None
      else case chan_recv (DoneC (tg p)) of
             None \<Rightarrow> None
           | Some (v, c) \<Rightarrow> Some (emit RecvDone (p\<lparr>tg := (tg p)\<lparr>doneC := c\<rparr>\<rparr>)))"

text \<open>
  The end of a goroutine's function: the deferred calls have all run; the goroutine ends, or
  the panic in flight goes on to end the program.
\<close>

definition finish :: "panic option \<Rightarrow> 'd watcher" where
  "finish q = (case q of None \<Rightarrow> WExited | Some q' \<Rightarrow> WUnwound q')"

subsubsection \<open>The watcher of fixed\_task\_group.go\<close>

text \<open>
  \<open>go func() { tg.wg.Wait(); defer close(tg.errC) }()\<close>: statement 0 is the wait, statement 1
  the \<open>defer\<close>, after which the function returns and runs its deferred calls.
\<close>

datatype dcall1 = CloseErrC1

definition step_watch1 ::
  "('e, dcall1, 'e FixedTaskGroup) prog \<Rightarrow> ('e, dcall1, 'e FixedTaskGroup) prog option" where
  "step_watch1 p =
     (case watcher p of
        NotSpawned \<Rightarrow> None
      | WRunning n ds \<Rightarrow>
          (if n = 0 then
             (if wg_Wait (wg (tg p)) then Some (emit Waited (p\<lparr>watcher := WRunning 1 ds\<rparr>)) else None)
           else Some (emit DeferPushed (p\<lparr>watcher := WReturning (CloseErrC1 # ds) None\<rparr>)))
      | WReturning [] q \<Rightarrow> Some (emit WatcherExited (p\<lparr>watcher := finish q\<rparr>))
      | WReturning (CloseErrC1 # ds) q \<Rightarrow>
          (case chan_close (errC (tg p)) of
             Inl q' \<Rightarrow> Some (emit (Raised q') (p\<lparr>watcher := WReturning ds (Some q')\<rparr>))
           | Inr c \<Rightarrow> Some (emit ClosedErrC (p\<lparr>tg := (tg p)\<lparr>errC := c\<rparr>, watcher := WReturning ds q\<rparr>)))
      | WExited \<Rightarrow> None
      | WUnwound q \<Rightarrow> Some (die q p))"

subsubsection \<open>The watcher of the version with DoneC\<close>

text \<open>
  \<open>go func() { defer close(tg.errC); defer close(tg.doneC); tg.wg.Wait() }()\<close>: statements 0
  and 1 push their calls on the stack of deferred calls, statement 2 is the wait, after which
  the function returns and runs the deferred calls, the most recently deferred first.
\<close>

datatype dcall2 = CloseErrC | CloseDoneC

definition step_watch2 ::
  "('e, dcall2, 'e FixedTaskGroup2) prog \<Rightarrow> ('e, dcall2, 'e FixedTaskGroup2) prog option" where
  "step_watch2 p =
     (case watcher p of
        NotSpawned \<Rightarrow> None
      | WRunning n ds \<Rightarrow>
          (if n = 0 then Some (emit DeferPushed (p\<lparr>watcher := WRunning 1 (CloseErrC # ds)\<rparr>))
           else if n = 1 then Some (emit DeferPushed (p\<lparr>watcher := WRunning 2 (CloseDoneC # ds)\<rparr>))
           else if wg_Wait (wg (tg p)) then Some (emit Waited (p\<lparr>watcher := WReturning ds None\<rparr>))
           else None)
      | WReturning [] q \<Rightarrow> Some (emit WatcherExited (p\<lparr>watcher := finish q\<rparr>))
      | WReturning (CloseErrC # ds) q \<Rightarrow>
          (case chan_close (errC (tg p)) of
             Inl q' \<Rightarrow> Some (emit (Raised q') (p\<lparr>watcher := WReturning ds (Some q')\<rparr>))
           | Inr c \<Rightarrow> Some (emit ClosedErrC (p\<lparr>tg := (tg p)\<lparr>errC := c\<rparr>, watcher := WReturning ds q\<rparr>)))
      | WReturning (CloseDoneC # ds) q \<Rightarrow>
          (case chan_close (doneC (tg p)) of
             Inl q' \<Rightarrow> Some (emit (Raised q') (p\<lparr>watcher := WReturning ds (Some q')\<rparr>))
           | Inr c \<Rightarrow> Some (emit ClosedDoneC (p\<lparr>tg := (tg p)\<lparr>doneC := c\<rparr>, watcher := WReturning ds q\<rparr>)))
      | WExited \<Rightarrow> None
      | WUnwound q \<Rightarrow> Some (die q p))"

subsubsection \<open>Schedules\<close>

text \<open>
  The scheduler picks who takes the next step: the constructor, the \<open>i\<close>-th task goroutine,
  the watcher, or a holder of the group calling \<open>Cancel\<close> or receiving from \<open>ErrC()\<close> or
  \<open>DoneC()\<close>. A step that is not enabled (the goroutine is blocked or has ended, or the
  program has ended) is \<open>None\<close>. An interleaving of the program is a list of such choices.
\<close>

datatype action = Construct | Go nat | Watch | CallCancel | ReadErrC | ReadDoneC

definition step1 ::
  "action \<Rightarrow> ('e, dcall1, 'e FixedTaskGroup) prog \<Rightarrow> ('e, dcall1, 'e FixedTaskGroup) prog option" where
  "step1 a p =
     (if crash p \<noteq> None then None
      else case a of
        Construct \<Rightarrow> step_construct p
      | Go i \<Rightarrow> step_go i p
      | Watch \<Rightarrow> step_watch1 p
      | CallCancel \<Rightarrow> step_cancel p
      | ReadErrC \<Rightarrow> step_recv_err p
      | ReadDoneC \<Rightarrow> None)"

definition step2 ::
  "action \<Rightarrow> ('e, dcall2, 'e FixedTaskGroup2) prog \<Rightarrow> ('e, dcall2, 'e FixedTaskGroup2) prog option" where
  "step2 a p =
     (if crash p \<noteq> None then None
      else case a of
        Construct \<Rightarrow> step_construct p
      | Go i \<Rightarrow> step_go i p
      | Watch \<Rightarrow> step_watch2 p
      | CallCancel \<Rightarrow> step_cancel p
      | ReadErrC \<Rightarrow> step_recv_err p
      | ReadDoneC \<Rightarrow> step_recv_done p)"

fun exec1 ::
  "action list \<Rightarrow> ('e, dcall1, 'e FixedTaskGroup) prog \<Rightarrow> ('e, dcall1, 'e FixedTaskGroup) prog option" where
  "exec1 [] p = Some p"
| "exec1 (a # as) p = (case step1 a p of None \<Rightarrow> None | Some p' \<Rightarrow> exec1 as p')"

fun exec2 ::
  "action list \<Rightarrow> ('e, dcall2, 'e FixedTaskGroup2) prog \<Rightarrow> ('e, dcall2, 'e FixedTaskGroup2) prog option" where
  "exec2 [] p = Some p"
| "exec2 (a # as) p = (case step2 a p of None \<Rightarrow> None | Some p' \<Rightarrow> exec2 as p')"

subsection \<open>NewFixedTaskGroup\<close>

text \<open>
  The struct literal of the constructor, with the program about to enter the \<open>range\<close> loop:
  \<open>tasks: tasks\<close>, a fresh wait group, \<open>errC: make(chan error, len(tasks))\<close>,
  \<open>cancelC: make(chan struct{})\<close>, a fresh \<open>Once\<close> (and \<open>doneC: make(chan struct{})\<close>).
\<close>

definition init1 :: "'e Task list \<Rightarrow> ('e, dcall1, 'e FixedTaskGroup) prog" where
  "init1 ts =
     \<lparr>tg = \<lparr>tasks = ts, wg = 0, errC = make_chan (length ts), cancelC = make_chan 0,
            cancelOnce = False\<rparr>,
      todo = ts, gos = [], watcher = NotSpawned, crash = None, hist = []\<rparr>"

definition init2 :: "'e Task list \<Rightarrow> ('e, dcall2, 'e FixedTaskGroup2) prog" where
  "init2 ts =
     \<lparr>tg = \<lparr>tasks = ts, wg = 0, errC = make_chan (length ts), cancelC = make_chan 0,
            cancelOnce = False, doneC = make_chan 0\<rparr>,
      todo = ts, gos = [], watcher = NotSpawned, crash = None, hist = []\<rparr>"

text \<open>
  The constructor run from its first statement to its \<open>return\<close> with no other goroutine
  scheduled in between: one step for each task and one to start the watcher.
\<close>

definition NewFixedTaskGroup1 :: "'e Task list \<Rightarrow> ('e, dcall1, 'e FixedTaskGroup) prog option" where
  "NewFixedTaskGroup1 ts = exec1 (replicate (length ts + 1) Construct) (init1 ts)"

definition NewFixedTaskGroup2 :: "'e Task list \<Rightarrow> ('e, dcall2, 'e FixedTaskGroup2) prog option" where
  "NewFixedTaskGroup2 ts = exec2 (replicate (length ts + 1) Construct) (init2 ts)"

section \<open>Properties\<close>

text \<open>
  A task goroutine is active until its deferred \<open>wg.Done()\<close> has run; it has left the body of
  its function once the task has returned or panicked and the send, if any, is over.
\<close>

fun active :: "'e gpc \<Rightarrow> bool" where
  "active Exited = False"
| "active (Unwound q) = False"
| "active pc = True"

fun body_left :: "'e gpc \<Rightarrow> bool" where
  "body_left (Deferred q) = True"
| "body_left Exited = True"
| "body_left (Unwound q) = True"
| "body_left pc = False"

text \<open>The only panic a task goroutine can be unwinding is one raised by the task itself.\<close>

fun benign :: "'e gpc \<Rightarrow> bool" where
  "benign (Deferred (Some q)) = (q = TaskPanic)"
| "benign (Unwound q) = (q = TaskPanic)"
| "benign pc = True"

text \<open>How many task goroutines are active, and how many have left their body.\<close>

definition n_active :: "('e Task \<times> 'e gpc) list \<Rightarrow> nat" where
  "n_active gs = length (filter (\<lambda>g. active (snd g)) gs)"

definition n_left :: "('e Task \<times> 'e gpc) list \<Rightarrow> nat" where
  "n_left gs = length (filter (\<lambda>g. body_left (snd g)) gs)"

text \<open>
  The invariant of both versions, for a group constructed from the tasks \<open>ts\<close>: the capacity
  of \<open>errC\<close>, the tasks started and still to start, the field \<open>tasks\<close>, the \<open>Once\<close> and its
  channel, the counter of the wait group, the room in the buffer, and the absence of panics
  other than those of tasks.
\<close>

definition inv :: "'e Task list \<Rightarrow> ('e, 'd, ('e, 'z) FixedTaskGroup_scheme) prog \<Rightarrow> bool" where
  "inv ts p \<longleftrightarrow>
     chan_cap (errC (tg p)) = length ts \<and>
     map fst (gos p) @ todo p = ts \<and>
     tasks (tg p) = ts @ map fst (gos p) \<and>
     (watcher p \<noteq> NotSpawned \<longrightarrow> todo p = []) \<and>
     (cancelOnce (tg p) \<longleftrightarrow> chan_closed (cancelC (tg p))) \<and>
     wg (tg p) = int (n_active (gos p)) \<and>
     length (chan_buf (errC (tg p))) \<le> n_left (gos p) \<and>
     (chan_closed (errC (tg p)) \<longrightarrow> todo p = [] \<and> wg (tg p) = 0) \<and>
     (\<forall>g \<in> set (gos p). benign (snd g)) \<and>
     (crash p = None \<or> crash p = Some TaskPanic)"

text \<open>
  Where the watcher is, against the counter \<open>n\<close> of the wait group and whether \<open>errC\<close>
  (\<open>e\<close>) and \<open>doneC\<close> (\<open>d\<close>) are closed.
\<close>

fun wstate1 :: "dcall1 watcher \<Rightarrow> int \<Rightarrow> bool \<Rightarrow> bool" where
  "wstate1 NotSpawned n e = (\<not> e)"
| "wstate1 (WRunning k ds) n e = (\<not> e \<and> ds = [] \<and> (k = 0 \<or> k = 1 \<and> n = 0))"
| "wstate1 (WReturning ds q) n e = (q = None \<and> n = 0 \<and> (ds = [CloseErrC1] \<and> \<not> e \<or> ds = [] \<and> e))"
| "wstate1 WExited n e = (n = 0 \<and> e)"
| "wstate1 (WUnwound q) n e = False"

fun wstate2 :: "dcall2 watcher \<Rightarrow> int \<Rightarrow> bool \<Rightarrow> bool \<Rightarrow> bool" where
  "wstate2 NotSpawned n e d = (\<not> e \<and> \<not> d)"
| "wstate2 (WRunning k ds) n e d =
     (\<not> e \<and> \<not> d \<and> (k = 0 \<and> ds = [] \<or> k = 1 \<and> ds = [CloseErrC] \<or> k = 2 \<and> ds = [CloseDoneC, CloseErrC]))"
| "wstate2 (WReturning ds q) n e d =
     (q = None \<and> n = 0 \<and>
      (ds = [CloseDoneC, CloseErrC] \<and> \<not> e \<and> \<not> d \<or> ds = [CloseErrC] \<and> \<not> e \<and> d \<or> ds = [] \<and> e \<and> d))"
| "wstate2 WExited n e d = (n = 0 \<and> e \<and> d)"
| "wstate2 (WUnwound q) n e d = False"

definition winv1 :: "('e, dcall1, 'e FixedTaskGroup) prog \<Rightarrow> bool" where
  "winv1 p \<longleftrightarrow> wstate1 (watcher p) (wg (tg p)) (chan_closed (errC (tg p)))"

definition winv2 :: "('e, dcall2, 'e FixedTaskGroup2) prog \<Rightarrow> bool" where
  "winv2 p \<longleftrightarrow> wstate2 (watcher p) (wg (tg p)) (chan_closed (errC (tg p))) (chan_closed (doneC (tg p)))"

text \<open>
  Readings of the history: the errors the tasks returned and the errors sent on \<open>errC\<close>, each
  with the index of its goroutine, and the errors received from \<open>errC\<close>.
\<close>

fun ev_returned :: "'e event \<Rightarrow> (nat \<times> 'e) list" where
  "ev_returned (Finished i (Returns (Some e))) = [(i, e)]"
| "ev_returned ev = []"

fun ev_sent :: "'e event \<Rightarrow> (nat \<times> 'e) list" where
  "ev_sent (Sent i e) = [(i, e)]"
| "ev_sent ev = []"

fun ev_received :: "'e event \<Rightarrow> 'e list" where
  "ev_received (RecvErr (Some e)) = [e]"
| "ev_received ev = []"

definition returned :: "'e event list \<Rightarrow> (nat \<times> 'e) list" where
  "returned h = concat (map ev_returned h)"

definition sent :: "'e event list \<Rightarrow> (nat \<times> 'e) list" where
  "sent h = concat (map ev_sent h)"

definition received :: "'e event list \<Rightarrow> 'e list" where
  "received h = concat (map ev_received h)"

definition by_task :: "nat \<Rightarrow> (nat \<times> 'e) list \<Rightarrow> 'e list" where
  "by_task i xs = map snd (filter (\<lambda>x. fst x = i) xs)"

text \<open>The program point of the \<open>i\<close>-th task goroutine, if it has been started.\<close>

definition pc_at :: "('e Task \<times> 'e gpc) list \<Rightarrow> nat \<Rightarrow> 'e gpc option" where
  "pc_at gs i = (if i < length gs then Some (snd (gs ! i)) else None)"

text \<open>What the history says of one goroutine, given its program point.\<close>

fun expect_returned :: "'e gpc option \<Rightarrow> 'e list \<Rightarrow> bool" where
  "expect_returned None es = (es = [])"
| "expect_returned (Some Spawned) es = (es = [])"
| "expect_returned (Some Running) es = (es = [])"
| "expect_returned (Some (Sending e)) es = (es = [e])"
| "expect_returned (Some pc) es = (length es \<le> 1)"

definition task_ok :: "'e event list \<Rightarrow> nat \<Rightarrow> 'e gpc option \<Rightarrow> bool" where
  "task_ok h i pco \<longleftrightarrow>
     count_list h (Invoked i) = (case pco of None \<Rightarrow> 0 | Some pc \<Rightarrow> if pc = Spawned then 0 else 1) \<and>
     count_list h (DoneCalled i) = (case pco of None \<Rightarrow> 0 | Some pc \<Rightarrow> if active pc then 0 else 1) \<and>
     expect_returned pco (by_task i (returned h)) \<and>
     by_task i (sent h) =
       (case pco of None \<Rightarrow> [] | Some pc \<Rightarrow> if body_left pc then by_task i (returned h) else [])"

text \<open>The history agrees with the state.\<close>

definition hinv :: "('e, 'd, ('e, 'z) FixedTaskGroup_scheme) prog \<Rightarrow> bool" where
  "hinv p \<longleftrightarrow>
     (\<forall>i. task_ok (hist p) i (pc_at (gos p) i)) \<and>
     mset (map snd (sent (hist p))) = mset (received (hist p)) + mset (chan_buf (errC (tg p))) \<and>
     count_list (hist p) (CancelCalled True) = (if cancelOnce (tg p) then 1 else 0)"

text \<open>The goroutine an event belongs to, for the events of task goroutines.\<close>

fun ev_task :: "'e event \<Rightarrow> nat option" where
  "ev_task (Invoked i) = Some i"
| "ev_task (Finished i r) = Some i"
| "ev_task (Sent i e) = Some i"
| "ev_task (DoneCalled i) = Some i"
| "ev_task ev = None"

text \<open>
  The tasks of the package's tests: two that fail at once, one that succeeds at once and one
  that returns \<open>nil\<close> once cancellation is requested.
\<close>

definition task_A :: "error Task" where
  "task_A c = Returns (Some (Err ''task A''))"

definition task_B :: "error Task" where
  "task_B c = Returns (Some (Err ''task B''))"

definition task_nil :: "error Task" where
  "task_nil c = Returns None"

definition task_wait :: "error Task" where
  "task_wait c = (if c then Returns None else Blocked)"

text \<open>
  An interleaving of a group of one task: the constructor runs, the task goroutine runs to its
  end, the watcher runs up to its first deferred call, and a holder receives from \<open>DoneC()\<close>.
\<close>

definition done_first :: "action list" where
  "done_first = [Construct, Construct, Go 0, Go 0, Go 0, Go 0, Watch, Watch, Watch, Watch, ReadDoneC]"

text \<open>Whether an operation that may block has completed.\<close>

fun is_Ok :: "'a attempt \<Rightarrow> bool" where
  "is_Ok (Ok x) = True"
| "is_Ok r = False"

text \<open>
  Every task goroutine that is at \<open>g.errC <- err\<close> can complete its send in the present
  state.
\<close>

definition send_ready :: "('e, 'd, ('e, 'z) FixedTaskGroup_scheme) prog \<Rightarrow> bool" where
  "send_ready p \<longleftrightarrow>
     list_all (\<lambda>g. case snd g of Sending e \<Rightarrow> is_Ok (chan_send e (errC (tg p))) | _ \<Rightarrow> True) (gos p)"

text \<open>
  Two failing tasks, no receiver: the second goroutine has sent its error, the first is at its
  send, and the constructor returns last.
\<close>

definition both_sending :: "action list" where
  "both_sending = [Construct, Go 0, Go 0, Construct, Go 1, Go 1, Go 1, Construct]"

text \<open>\<open>n\<close> calls of \<open>Cancel\<close>, one after the other, stopping at a panic.\<close>

fun Cancel_n :: "nat \<Rightarrow> ('e, 'z) FixedTaskGroup_scheme \<Rightarrow> panic + ('e, 'z) FixedTaskGroup_scheme" where
  "Cancel_n 0 g = Inr g"
| "Cancel_n (Suc n) g = (case Cancel g of Inl q \<Rightarrow> Inl q | Inr g' \<Rightarrow> Cancel_n n g')"

text \<open>The group with its cancellation channel closed and its \<open>Once\<close> done.\<close>

definition cancelled :: "('e, 'z) FixedTaskGroup_scheme \<Rightarrow> ('e, 'z) FixedTaskGroup_scheme" where
  "cancelled g = g\<lparr>cancelC := (cancelC g)\<lparr>chan_closed := True\<rparr>, cancelOnce := True\<rparr>"

text \<open>
  Three calls of \<open>Cancel\<close> among the steps of a task that waits for cancellation.
\<close>

definition cancel_thrice :: "action list" where
  "cancel_thrice = [Construct, Construct, CallCancel, Go 0, CallCancel, Go 0, CallCancel]"

text \<open>
  The same task given twice: the first goroutine runs to its end, partly while the constructor
  is still in its loop; the second has not started its task.
\<close>

definition same_task_twice :: "action list" where
  "same_task_twice = [Construct, Go 0, Construct, Construct, Go 0, Go 0]"

text \<open>A task that panics.\<close>

definition task_panic :: "error Task" where
  "task_panic c = Panics"

text \<open>
  The invariant of a group of no tasks: no goroutine, no panic, the counter at zero, nothing
  sent and nothing received.
\<close>

definition quiet :: "('e, 'd, ('e, 'z) FixedTaskGroup_scheme) prog \<Rightarrow> bool" where
  "quiet p \<longleftrightarrow>
     gos p = [] \<and> todo p = [] \<and> crash p = None \<and> wg (tg p) = 0 \<and>
     chan_buf (errC (tg p)) = [] \<and> received (hist p) = [] \<and>
     (cancelOnce (tg p) \<longleftrightarrow> chan_closed (cancelC (tg p)))"

text \<open>The goroutines the constructor has started when it returns.\<close>

definition spawned :: "'e Task list \<Rightarrow> ('e Task \<times> 'e gpc) list" where
  "spawned ts = map (\<lambda>t. (t, Spawned)) ts"

text \<open>
  A group of no tasks in each version: the constructor returns, the watcher runs up to its
  last deferred call, and a holder receives from the closed channels.
\<close>

definition empty_group1 :: "action list" where
  "empty_group1 = [Construct, Watch, Watch, Watch, ReadErrC]"

definition empty_group2 :: "action list" where
  "empty_group2 = [Construct, Watch, Watch, Watch, Watch, Watch, ReadDoneC, ReadErrC]"

text \<open>
  A task that panics and a task that fails: the first goroutine is at its deferred call with
  the panic in flight, the second at its send.
\<close>

definition fault_and_error :: "action list" where
  "fault_and_error = [Construct, Construct, Construct, Go 0, Go 0, Go 1, Go 1]"

text \<open>
  Two failing tasks in each version: the second fails first, a holder receives one error, and
  the watcher runs until \<open>errC\<close> is closed.
\<close>

definition drain1 :: "action list" where
  "drain1 = [Construct, Construct, Construct, Go 1, Go 1, Go 1, Go 1, Go 0, Go 0, Go 0, Go 0,
             ReadErrC, Watch, Watch, Watch]"

definition drain2 :: "action list" where
  "drain2 = [Construct, Construct, Construct, Go 1, Go 1, Go 1, Go 1, Go 0, Go 0, Go 0, Go 0,
             ReadErrC, Watch, Watch, Watch, Watch, Watch]"

text \<open>
  Renaming the errors of a program by a function \<open>f\<close>: in the tasks, in the buffer of
  \<open>errC\<close>, at the program points of the goroutines and in the history.
\<close>

definition map_chan :: "('a \<Rightarrow> 'b) \<Rightarrow> 'a chan \<Rightarrow> 'b chan" where
  "map_chan f c = \<lparr>chan_buf = map f (chan_buf c), chan_cap = chan_cap c, chan_closed = chan_closed c\<rparr>"

definition map_Task :: "('a \<Rightarrow> 'b) \<Rightarrow> 'a Task \<Rightarrow> 'b Task" where
  "map_Task f task = (\<lambda>c. map_outcome f (task c))"

definition map_group :: "('a \<Rightarrow> 'b) \<Rightarrow> ('a, 'z) FixedTaskGroup_scheme \<Rightarrow> ('b, 'z) FixedTaskGroup_scheme" where
  "map_group f g =
     \<lparr>tasks = map (map_Task f) (tasks g), wg = wg g, errC = map_chan f (errC g),
      cancelC = cancelC g, cancelOnce = cancelOnce g, \<dots> = FixedTaskGroup.more g\<rparr>"

definition map_prog ::
  "('a \<Rightarrow> 'b) \<Rightarrow> ('a, 'd, ('a, 'z) FixedTaskGroup_scheme) prog
     \<Rightarrow> ('b, 'd, ('b, 'z) FixedTaskGroup_scheme) prog" where
  "map_prog f p =
     \<lparr>tg = map_group f (tg p), todo = map (map_Task f) (todo p),
      gos = map (\<lambda>g. (map_Task f (fst g), map_gpc f (snd g))) (gos p),
      watcher = watcher p, crash = crash p, hist = map (map_event f) (hist p)\<rparr>"

text \<open>The renaming that puts \<open>e'\<close> in place of the sentinel.\<close>

definition replace_sentinel :: "error \<Rightarrow> error \<Rightarrow> error" where
  "replace_sentinel e' e = (if e = ErrTaskCancelled then e' else e)"

text \<open>
  The events that both versions have in common: all but the \<open>defer\<close> statements of the
  watcher and what concerns \<open>doneC\<close>.
\<close>

fun shared_event :: "'e event \<Rightarrow> bool" where
  "shared_event DeferPushed = False"
| "shared_event ClosedDoneC = False"
| "shared_event RecvDone = False"
| "shared_event ev = True"

definition shared :: "'e event list \<Rightarrow> 'e event list" where
  "shared h = filter shared_event h"

text \<open>
  Where the watcher of the first version is when that of the second is at a given point:
  before its wait until the second has waited, at its \<open>defer\<close> statement while the second has
  \<open>close(tg.doneC)\<close> still to run, and at the same deferred calls after that.
\<close>

fun proj_watcher :: "dcall2 watcher \<Rightarrow> dcall1 watcher" where
  "proj_watcher NotSpawned = NotSpawned"
| "proj_watcher (WRunning n ds) = WRunning 0 []"
| "proj_watcher (WReturning ds q) =
     (if CloseDoneC \<in> set ds then WRunning 1 [] else WReturning (map (\<lambda>d. CloseErrC1) ds) q)"
| "proj_watcher WExited = WExited"
| "proj_watcher (WUnwound q) = WUnwound q"

text \<open>A state of the first version and a state of the second that agree on all they share.\<close>

definition rel ::
  "('e, dcall1, 'e FixedTaskGroup) prog \<Rightarrow> ('e, dcall2, 'e FixedTaskGroup2) prog \<Rightarrow> bool" where
  "rel p1 p2 \<longleftrightarrow>
     tasks (tg p1) = tasks (tg p2) \<and> wg (tg p1) = wg (tg p2) \<and> errC (tg p1) = errC (tg p2) \<and>
     cancelC (tg p1) = cancelC (tg p2) \<and> cancelOnce (tg p1) = cancelOnce (tg p2) \<and>
     todo p1 = todo p2 \<and> gos p1 = gos p2 \<and> watcher p1 = proj_watcher (watcher p2) \<and>
     crash p1 = crash p2 \<and> shared (hist p1) = shared (hist p2)"

section \<open>Invariants of the interleavings\<close>

subsection \<open>The state\<close>

lemma filter_update_count:
  "i < length xs \<Longrightarrow>
   int (length (filter P (xs[i := y]))) =
     int (length (filter P xs)) - of_bool (P (xs ! i)) + of_bool (P y)"
proof (induction xs arbitrary: i)
  case Nil
  then show ?case by simp
next
  case (Cons x xs)
  then show ?case by (cases i) auto
qed

lemma n_active_update:
  "i < length gs \<Longrightarrow>
   int (n_active (gs[i := (t, pc')])) =
     int (n_active gs) - of_bool (active (snd (gs ! i))) + of_bool (active pc')"
  unfolding n_active_def by (simp add: filter_update_count)

lemma n_left_update:
  "i < length gs \<Longrightarrow>
   int (n_left (gs[i := (t, pc')])) =
     int (n_left gs) - of_bool (body_left (snd (gs ! i))) + of_bool (body_left pc')"
  unfolding n_left_def by (simp add: filter_update_count)

lemma n_active_pos: "i < length gs \<Longrightarrow> active (snd (gs ! i)) \<Longrightarrow> 0 < n_active gs"
  unfolding n_active_def by (auto simp: filter_empty_conv intro!: nth_mem)

lemma n_left_le: "n_left gs \<le> length gs"
  unfolding n_left_def by simp

lemma n_left_lt: "i < length gs \<Longrightarrow> \<not> body_left (snd (gs ! i)) \<Longrightarrow> n_left gs < length gs"
  unfolding n_left_def by (metis length_filter_less nth_mem)

lemma n_active_snoc [simp]: "n_active (gs @ [(t, Spawned)]) = Suc (n_active gs)"
  by (simp add: n_active_def)

lemma n_left_snoc [simp]: "n_left (gs @ [(t, Spawned)]) = n_left gs"
  by (simp add: n_left_def)

lemma inv_init1: "inv ts (init1 ts)"
  by (simp add: inv_def init1_def make_chan_def n_active_def n_left_def)

lemma inv_init2: "inv ts (init2 ts)"
  by (simp add: inv_def init2_def make_chan_def n_active_def n_left_def)

lemma inv_step_construct:
  assumes "inv ts p" and "crash p = None" and "step_construct p = Some p'"
  shows "inv ts p'"
  using assms
  by (auto simp: inv_def step_construct_def startTask_def wg_Add_def emit_def die_def Let_def
      split: list.splits if_splits sum.splits)

lemma inv_step_cancel:
  assumes "inv ts p" and "step_cancel p = Some p'"
  shows "inv ts p'"
  using assms
  by (auto simp: inv_def step_cancel_def Cancel_def chan_close_def emit_def die_def
      split: if_splits sum.splits)

lemma inv_step_recv_err:
  assumes "inv ts p" and "step_recv_err p = Some p'"
  shows "inv ts p'"
  using assms
  by (auto simp: inv_def step_recv_err_def ErrC_def chan_recv_def emit_def
      split: if_splits list.splits option.splits)

lemma benign_update:
  "\<forall>g \<in> set gs. benign (snd g) \<Longrightarrow> benign pc \<Longrightarrow> \<forall>g \<in> set (gs[i := (t, pc)]). benign (snd g)"
  by (auto dest!: set_update_subset_insert [THEN subsetD])

lemma map_fst_update [simp]: "(map fst gs)[i := fst (gs ! i)] = map fst gs"
  by (cases "i < length gs") (simp_all add: list_update_same_conv list_update_beyond)

lemma inv_step_go:
  assumes "inv ts p" and "step_go i p = Some p'"
  shows "inv ts p'"
proof -
  from assms(2) have i: "i < length (gos p)"
    by (auto simp: step_go_def split: if_splits)
  have len: "length (gos p) \<le> length ts"
    using assms(1) by (auto simp: inv_def dest: arg_cong [where f = length])
  have ben: "\<forall>g \<in> set (gos p). benign (snd g)"
    using assms(1) by (simp add: inv_def)
  note upd = n_active_update [OF i, of "fst (gos p ! i)"] n_left_update [OF i, of "fst (gos p ! i)"]
    benign_update [OF ben, of _ i "fst (gos p ! i)"]
  show ?thesis
  proof (cases "snd (gos p ! i)")
    case Spawned
    then show ?thesis
      using assms i upd [of Running]
      by (clarsimp simp: step_go_def inv_def set_pc_def emit_def map_update)
  next
    case Running
    then show ?thesis
      using assms i upd [of "Deferred None"] upd [of "Deferred (Some TaskPanic)"] upd [of "Sending e" for e]
      by (clarsimp simp: step_go_def inv_def set_pc_def emit_def map_update
          split: outcome.splits option.splits)
  next
    case (Sending e)
    have "0 < n_active (gos p)" using n_active_pos [OF i] Sending by simp
    moreover have "n_left (gos p) < length (gos p)" using n_left_lt [OF i] Sending by simp
    ultimately show ?thesis
      using assms i upd [of "Deferred None"] Sending len
      by (clarsimp simp: step_go_def inv_def set_pc_def emit_def map_update chan_send_def
          split: attempt.splits if_splits)
  next
    case (Deferred q)
    have "0 < n_active (gos p)" using n_active_pos [OF i] Deferred by simp
    moreover have "benign (snd (gos p ! i))" using ben [rule_format, OF nth_mem [OF i]] .
    ultimately show ?thesis
      using assms i upd [of "Exited"] upd [of "Unwound TaskPanic"] Deferred
      by (clarsimp simp: step_go_def inv_def set_pc_def emit_def map_update wg_Done_def wg_Add_def
          split: sum.splits if_splits option.splits)
  next
    case Exited
    then show ?thesis using assms i by (simp add: step_go_def)
  next
    case (Unwound q)
    have "benign (snd (gos p ! i))" using ben [rule_format, OF nth_mem [OF i]] .
    then show ?thesis
      using assms i Unwound
      by (clarsimp simp: step_go_def inv_def die_def emit_def)
  qed
qed

text \<open>What the steps shared by both versions leave unchanged.\<close>

lemma step_construct_frame:
  assumes "inv ts p" and "step_construct p = Some p'"
  shows "watcher p = NotSpawned \<and> (watcher p' = NotSpawned \<or> watcher p' = WRunning 0 []) \<and>
         errC (tg p') = errC (tg p)"
  using assms
  by (auto simp: inv_def step_construct_def startTask_def wg_Add_def emit_def die_def Let_def
      split: list.splits if_splits sum.splits)

lemma step_go_frame:
  assumes "inv ts p" and "step_go i p = Some p'"
  shows "watcher p' = watcher p \<and> chan_closed (errC (tg p')) = chan_closed (errC (tg p)) \<and>
         (wg (tg p) = 0 \<longrightarrow> wg (tg p') = 0)"
proof -
  from assms(2) have i: "i < length (gos p)"
    by (auto simp: step_go_def split: if_splits)
  have "active (snd (gos p ! i)) \<Longrightarrow> 0 < wg (tg p)"
    using n_active_pos [OF i] assms(1) by (simp add: inv_def)
  then show ?thesis
    using assms(2) i
    by (cases "snd (gos p ! i)")
      (auto simp: step_go_def set_pc_def emit_def die_def chan_send_def wg_Done_def wg_Add_def
        split: outcome.splits option.splits attempt.splits sum.splits if_splits)
qed

lemma step_cancel_frame:
  assumes "step_cancel p = Some p'"
  shows "watcher p' = watcher p \<and> errC (tg p') = errC (tg p) \<and> wg (tg p') = wg (tg p)"
  using assms
  by (auto simp: step_cancel_def Cancel_def chan_close_def emit_def die_def
      split: if_splits sum.splits)

lemma step_recv_err_frame:
  assumes "step_recv_err p = Some p'"
  shows "watcher p' = watcher p \<and> chan_closed (errC (tg p')) = chan_closed (errC (tg p)) \<and>
         wg (tg p') = wg (tg p)"
  using assms
  by (auto simp: step_recv_err_def ErrC_def chan_recv_def emit_def
      split: if_splits list.splits option.splits)

lemma shared_steps_doneC:
  fixes p :: "('e, 'd, ('e, 'z) FixedTaskGroup2_scheme) prog"
  shows "step_construct p = Some p' \<Longrightarrow> doneC (tg p') = doneC (tg p)"
    and "step_go i p = Some p' \<Longrightarrow> doneC (tg p') = doneC (tg p)"
    and "step_cancel p = Some p' \<Longrightarrow> doneC (tg p') = doneC (tg p)"
    and "step_recv_err p = Some p' \<Longrightarrow> doneC (tg p') = doneC (tg p)"
     apply (auto simp: step_construct_def startTask_def wg_Add_def emit_def die_def Let_def
      split: list.splits if_splits sum.splits)[1]
    apply (cases "snd (gos p ! i)";
      auto simp: step_go_def set_pc_def emit_def die_def chan_send_def wg_Done_def wg_Add_def
        split: outcome.splits option.splits attempt.splits sum.splits if_splits)
   apply (auto simp: step_cancel_def Cancel_def chan_close_def emit_def die_def
      split: if_splits sum.splits)[1]
  apply (auto simp: step_recv_err_def ErrC_def chan_recv_def emit_def
      split: if_splits list.splits option.splits)
  done

lemma inv_step_recv_done:
  assumes "inv ts p" and "step_recv_done p = Some p'"
  shows "inv ts p'"
  using assms
  by (auto simp: inv_def step_recv_done_def DoneC_def chan_recv_def emit_def
      split: if_splits list.splits option.splits)

lemma inv_step_watch1:
  assumes "inv ts p" and "winv1 p" and "step_watch1 p = Some p'"
  shows "inv ts p' \<and> winv1 p'"
proof (cases "watcher p")
  case (WReturning ds q)
  then show ?thesis
    using assms
    by (cases ds)
      (auto simp: inv_def winv1_def step_watch1_def emit_def finish_def chan_close_def
        split: if_splits dcall1.splits)
qed (use assms in \<open>auto simp: inv_def winv1_def step_watch1_def emit_def wg_Wait_def split: if_splits\<close>)

lemma inv_step_watch2:
  assumes "inv ts p" and "winv2 p" and "step_watch2 p = Some p'"
  shows "inv ts p' \<and> winv2 p'"
proof (cases "watcher p")
  case (WReturning ds q)
  then show ?thesis
    using assms
    by (cases ds)
      (auto simp: inv_def winv2_def step_watch2_def emit_def finish_def chan_close_def
        split: if_splits dcall2.splits)
qed (use assms in \<open>auto simp: inv_def winv2_def step_watch2_def emit_def wg_Wait_def split: if_splits\<close>)

lemma inv_step1:
  assumes "inv ts p" and "winv1 p" and "step1 a p = Some p'"
  shows "inv ts p' \<and> winv1 p'"
proof (cases a)
  case Construct
  then have s: "step_construct p = Some p'" and c: "crash p = None"
    using assms(3) by (auto simp: step1_def split: if_splits)
  show ?thesis
    using inv_step_construct [OF assms(1) c s] step_construct_frame [OF assms(1) s] assms(2)
    by (auto simp: winv1_def)
next
  case (Go i)
  then have s: "step_go i p = Some p'"
    using assms(3) by (auto simp: step1_def split: if_splits)
  show ?thesis
    using inv_step_go [OF assms(1) s] step_go_frame [OF assms(1) s] assms(2)
    by (cases "watcher p") (auto simp: winv1_def)
next
  case Watch
  then show ?thesis
    using assms inv_step_watch1 by (auto simp: step1_def split: if_splits)
next
  case CallCancel
  then have s: "step_cancel p = Some p'"
    using assms(3) by (auto simp: step1_def split: if_splits)
  show ?thesis
    using inv_step_cancel [OF assms(1) s] step_cancel_frame [OF s] assms(2)
    by (auto simp: winv1_def)
next
  case ReadErrC
  then have s: "step_recv_err p = Some p'"
    using assms(3) by (auto simp: step1_def split: if_splits)
  show ?thesis
    using inv_step_recv_err [OF assms(1) s] step_recv_err_frame [OF s] assms(2)
    by (auto simp: winv1_def)
next
  case ReadDoneC
  then show ?thesis using assms(3) by (simp add: step1_def split: if_splits)
qed

lemma step_recv_done_frame:
  assumes "step_recv_done p = Some p'"
  shows "watcher p' = watcher p \<and> errC (tg p') = errC (tg p) \<and> wg (tg p') = wg (tg p) \<and>
         chan_closed (doneC (tg p')) = chan_closed (doneC (tg p))"
  using assms
  by (auto simp: step_recv_done_def DoneC_def chan_recv_def emit_def
      split: if_splits list.splits option.splits)

lemma inv_step2:
  assumes "inv ts p" and "winv2 p" and "step2 a p = Some p'"
  shows "inv ts p' \<and> winv2 p'"
proof (cases a)
  case Construct
  then have s: "step_construct p = Some p'" and c: "crash p = None"
    using assms(3) by (auto simp: step2_def split: if_splits)
  show ?thesis
    using inv_step_construct [OF assms(1) c s] step_construct_frame [OF assms(1) s] assms(2)
      shared_steps_doneC(1) [OF s]
    by (auto simp: winv2_def)
next
  case (Go i)
  then have s: "step_go i p = Some p'"
    using assms(3) by (auto simp: step2_def split: if_splits)
  have "doneC (tg p') = doneC (tg p)"
    using shared_steps_doneC(2) [OF s] .
  then show ?thesis
    using inv_step_go [OF assms(1) s] step_go_frame [OF assms(1) s] assms(2)
    by (cases "watcher p") (auto simp: winv2_def)
next
  case Watch
  then show ?thesis
    using assms inv_step_watch2 by (auto simp: step2_def split: if_splits)
next
  case CallCancel
  then have s: "step_cancel p = Some p'"
    using assms(3) by (auto simp: step2_def split: if_splits)
  have "doneC (tg p') = doneC (tg p)"
    using shared_steps_doneC(3) [OF s] .
  then show ?thesis
    using inv_step_cancel [OF assms(1) s] step_cancel_frame [OF s] assms(2)
    by (auto simp: winv2_def)
next
  case ReadErrC
  then have s: "step_recv_err p = Some p'"
    using assms(3) by (auto simp: step2_def split: if_splits)
  have "doneC (tg p') = doneC (tg p)"
    using shared_steps_doneC(4) [OF s] .
  then show ?thesis
    using inv_step_recv_err [OF assms(1) s] step_recv_err_frame [OF s] assms(2)
    by (auto simp: winv2_def)
next
  case ReadDoneC
  then have s: "step_recv_done p = Some p'"
    using assms(3) by (auto simp: step2_def split: if_splits)
  show ?thesis
    using inv_step_recv_done [OF assms(1) s] step_recv_done_frame [OF s] assms(2)
    by (auto simp: winv2_def)
qed

lemma exec1_inv:
  "exec1 sched p = Some p' \<Longrightarrow> inv ts p \<Longrightarrow> winv1 p \<Longrightarrow> inv ts p' \<and> winv1 p'"
proof (induction sched arbitrary: p)
  case Nil
  then show ?case by simp
next
  case (Cons a sched)
  then show ?case by (auto split: option.splits dest: inv_step1)
qed

lemma exec2_inv:
  "exec2 sched p = Some p' \<Longrightarrow> inv ts p \<Longrightarrow> winv2 p \<Longrightarrow> inv ts p' \<and> winv2 p'"
proof (induction sched arbitrary: p)
  case Nil
  then show ?case by simp
next
  case (Cons a sched)
  then show ?case by (auto split: option.splits dest: inv_step2)
qed

lemma reach1_inv: "exec1 sched (init1 ts) = Some p \<Longrightarrow> inv ts p \<and> winv1 p"
  by (rule exec1_inv [OF _ inv_init1]) (simp_all add: winv1_def init1_def make_chan_def)

lemma reach2_inv: "exec2 sched (init2 ts) = Some p \<Longrightarrow> inv ts p \<and> winv2 p"
  by (rule exec2_inv [OF _ inv_init2]) (simp_all add: winv2_def init2_def make_chan_def)

subsection \<open>The history\<close>

lemma returned_snoc [simp]: "returned (h @ [ev]) = returned h @ ev_returned ev"
  by (simp add: returned_def)

lemma sent_snoc [simp]: "sent (h @ [ev]) = sent h @ ev_sent ev"
  by (simp add: sent_def)

lemma received_snoc [simp]: "received (h @ [ev]) = received h @ ev_received ev"
  by (simp add: received_def)

lemma by_task_append [simp]: "by_task i (xs @ ys) = by_task i xs @ by_task i ys"
  by (simp add: by_task_def)

lemma by_task_simps [simp]:
  "by_task i [] = []"
  "by_task i [(j, e)] = (if j = i then [e] else [])"
  by (simp_all add: by_task_def)

lemma task_ok_other:
  assumes "ev_task ev \<noteq> Some i"
  shows "task_ok (h @ [ev]) i pco = task_ok h i pco"
proof -
  have a: "count_list (h @ [ev]) (Invoked i) = count_list h (Invoked i)"
    using assms by (cases ev) auto
  have b: "count_list (h @ [ev]) (DoneCalled i) = count_list h (DoneCalled i)"
    using assms by (cases ev) auto
  have c: "by_task i (returned (h @ [ev])) = by_task i (returned h)"
    using assms by (cases ev rule: ev_returned.cases) auto
  have d: "by_task i (sent (h @ [ev])) = by_task i (sent h)"
    using assms by (cases ev rule: ev_sent.cases) auto
  show ?thesis
    unfolding task_ok_def a b c d ..
qed

lemma pc_at_update:
  "pc_at (gs[i := (t, pc)]) j = (if j = i \<and> i < length gs then Some pc else pc_at gs j)"
  by (auto simp: pc_at_def)

lemma pc_at_snoc:
  "pc_at (gs @ [(t, pc)]) j = (if j = length gs then Some pc else pc_at gs j)"
  by (auto simp: pc_at_def nth_append)

lemma hinv_init1: "hinv (init1 ts)"
  by (simp add: hinv_def init1_def task_ok_def pc_at_def returned_def sent_def received_def make_chan_def)

lemma hinv_init2: "hinv (init2 ts)"
  by (simp add: hinv_def init2_def task_ok_def pc_at_def returned_def sent_def received_def make_chan_def)

lemma hinv_step_construct:
  assumes "hinv p" and "step_construct p = Some p'"
  shows "hinv p'"
proof -
  have "task_ok (hist p) (length (gos p)) (pc_at (gos p) (length (gos p)))"
    using assms(1) unfolding hinv_def by blast
  then have "task_ok (hist p) (length (gos p)) (Some Spawned)"
    by (simp add: task_ok_def pc_at_def)
  then show ?thesis
    using assms
    by (auto simp: hinv_def step_construct_def startTask_def wg_Add_def emit_def die_def Let_def
        task_ok_other pc_at_snoc
        split: list.splits if_splits sum.splits)
qed

lemma hinv_step_cancel:
  assumes "inv ts p" and "hinv p" and "step_cancel p = Some p'"
  shows "hinv p'"
  using assms
  by (auto simp: hinv_def inv_def step_cancel_def Cancel_def chan_close_def emit_def die_def task_ok_other
      split: if_splits sum.splits)

lemma hinv_step_recv_err:
  assumes "hinv p" and "step_recv_err p = Some p'"
  shows "hinv p'"
  using assms
  by (auto simp: hinv_def step_recv_err_def ErrC_def chan_recv_def emit_def task_ok_other
      split: if_splits list.splits option.splits)

lemma hinv_step_recv_done:
  assumes "hinv p" and "step_recv_done p = Some p'"
  shows "hinv p'"
  using assms
  by (auto simp: hinv_def step_recv_done_def DoneC_def chan_recv_def emit_def task_ok_other
      split: if_splits list.splits option.splits)

lemma hinv_step_watch1:
  assumes "hinv p" and "step_watch1 p = Some p'"
  shows "hinv p'"
proof (cases "watcher p")
  case (WReturning ds q)
  then show ?thesis
    using assms
    by (cases ds)
      (auto simp: hinv_def step_watch1_def emit_def finish_def chan_close_def task_ok_other
        split: if_splits dcall1.splits)
qed (use assms in \<open>auto simp: hinv_def step_watch1_def emit_def die_def task_ok_other split: if_splits\<close>)

lemma hinv_step_watch2:
  assumes "hinv p" and "step_watch2 p = Some p'"
  shows "hinv p'"
proof (cases "watcher p")
  case (WReturning ds q)
  then show ?thesis
    using assms
    by (cases ds)
      (auto simp: hinv_def step_watch2_def emit_def finish_def chan_close_def task_ok_other
        split: if_splits dcall2.splits)
qed (use assms in \<open>auto simp: hinv_def step_watch2_def emit_def die_def task_ok_other split: if_splits\<close>)

lemma task_ok_invoke:
  "task_ok h i (Some Spawned) \<Longrightarrow> task_ok (h @ [Invoked i]) i (Some Running)"
  by (simp add: task_ok_def)

lemma task_ok_finish:
  assumes "task_ok h i (Some Running)"
  shows "task_ok (h @ [Finished i Panics]) i (Some (Deferred q))"
    and "task_ok (h @ [Finished i (Returns None)]) i (Some (Deferred q))"
    and "task_ok (h @ [Finished i (Returns (Some e))]) i (Some (Sending e))"
  using assms by (simp_all add: task_ok_def)

lemma task_ok_send:
  "task_ok h i (Some (Sending e)) \<Longrightarrow> task_ok (h @ [Sent i e]) i (Some (Deferred q))"
  by (simp add: task_ok_def)

lemma task_ok_done:
  assumes "task_ok h i (Some (Deferred q))"
  shows "task_ok (h @ [DoneCalled i]) i (Some Exited)"
    and "task_ok (h @ [DoneCalled i]) i (Some (Unwound q'))"
  using assms by (simp_all add: task_ok_def)

lemma hinv_step_go:
  assumes "inv ts p" and "hinv p" and "step_go i p = Some p'"
  shows "hinv p'"
proof -
  from assms(3) have i: "i < length (gos p)"
    by (auto simp: step_go_def split: if_splits)
  have all: "task_ok (hist p) j (pc_at (gos p) j)" for j
    using assms(2) unfolding hinv_def by blast
  have me: "task_ok (hist p) i (Some (snd (gos p ! i)))"
    using all [of i] i by (simp add: pc_at_def)
  have pos: "active (snd (gos p ! i)) \<Longrightarrow> 0 < wg (tg p)"
    using n_active_pos [OF i] assms(1) by (simp add: inv_def)
  have open_: "active (snd (gos p ! i)) \<Longrightarrow> \<not> chan_closed (errC (tg p))"
    using pos assms(1) by (auto simp: inv_def)
  have rest: "mset (map snd (sent (hist p))) = mset (received (hist p)) + mset (chan_buf (errC (tg p)))"
    "count_list (hist p) (CancelCalled True) = (if cancelOnce (tg p) then 1 else 0)"
    using assms(2) unfolding hinv_def by blast+
  define ev where "ev = last (hist p')"
  define pc' where "pc' = snd (gos p' ! i)"
  have shape: "hist p' = hist p @ [ev] \<and> gos p' = (gos p)[i := (fst (gos p ! i), pc')]
     \<or> hist p' = hist p @ [ev] \<and> gos p' = gos p \<and> pc' = snd (gos p ! i) \<and> ev_task ev = None"
    using assms(3) i unfolding ev_def pc'_def
    by (cases "snd (gos p ! i)")
      (auto simp: step_go_def set_pc_def emit_def die_def
        split: outcome.splits option.splits attempt.splits sum.splits if_splits)
  have mine: "task_ok (hist p @ [ev]) i (Some pc')"
    using assms(3) i me pos open_ unfolding ev_def pc'_def
    by (cases "snd (gos p ! i)")
      (auto simp: step_go_def set_pc_def emit_def die_def chan_send_def wg_Done_def wg_Add_def
        task_ok_invoke task_ok_finish task_ok_send task_ok_done task_ok_other
        split: outcome.splits option.splits attempt.splits sum.splits if_splits)
  have evt: "ev_task ev = None \<or> ev_task ev = Some i"
    using assms(3) i unfolding ev_def
    by (cases "snd (gos p ! i)")
      (auto simp: step_go_def set_pc_def emit_def die_def
        split: outcome.splits option.splits attempt.splits sum.splits if_splits)
  have tasks_ok: "task_ok (hist p') j (pc_at (gos p') j)" for j
  proof (cases "j = i")
    case True
    then show ?thesis
      using shape mine i by (auto simp: pc_at_update pc_at_def)
  next
    case False
    then have "ev_task ev \<noteq> Some j" using evt by auto
    then show ?thesis
      using shape all [of j] False by (auto simp: pc_at_update task_ok_other)
  qed
  have glob: "mset (map snd (sent (hist p'))) = mset (received (hist p')) + mset (chan_buf (errC (tg p')))
     \<and> count_list (hist p') (CancelCalled True) = (if cancelOnce (tg p') then 1 else 0)"
    using assms(3) i rest
    by (cases "snd (gos p ! i)")
      (auto simp: step_go_def set_pc_def emit_def die_def chan_send_def wg_Done_def wg_Add_def
        split: outcome.splits option.splits attempt.splits sum.splits if_splits)
  show ?thesis
    unfolding hinv_def using tasks_ok glob by blast
qed

lemma hinv_step1:
  assumes "inv ts p" and "hinv p" and "step1 a p = Some p'"
  shows "hinv p'"
  using assms hinv_step_construct hinv_step_go hinv_step_cancel hinv_step_recv_err hinv_step_watch1
  by (cases a) (auto simp: step1_def split: if_splits)

lemma hinv_step2:
  assumes "inv ts p" and "hinv p" and "step2 a p = Some p'"
  shows "hinv p'"
  using assms hinv_step_construct hinv_step_go hinv_step_cancel hinv_step_recv_err hinv_step_watch2
    hinv_step_recv_done
  by (cases a) (auto simp: step2_def split: if_splits)

lemma exec1_hinv:
  "exec1 sched p = Some p' \<Longrightarrow> inv ts p \<Longrightarrow> winv1 p \<Longrightarrow> hinv p \<Longrightarrow> hinv p'"
proof (induction sched arbitrary: p)
  case Nil
  then show ?case by simp
next
  case (Cons a sched)
  then show ?case
    by (auto split: option.splits dest: inv_step1 hinv_step1)
qed

lemma exec2_hinv:
  "exec2 sched p = Some p' \<Longrightarrow> inv ts p \<Longrightarrow> winv2 p \<Longrightarrow> hinv p \<Longrightarrow> hinv p'"
proof (induction sched arbitrary: p)
  case Nil
  then show ?case by simp
next
  case (Cons a sched)
  then show ?case
    by (auto split: option.splits dest: inv_step2 hinv_step2)
qed

lemma reach1_hinv: "exec1 sched (init1 ts) = Some p \<Longrightarrow> hinv p"
  by (rule exec1_hinv [OF _ inv_init1 _ hinv_init1]) (simp_all add: winv1_def init1_def make_chan_def)

lemma reach2_hinv: "exec2 sched (init2 ts) = Some p \<Longrightarrow> hinv p"
  by (rule exec2_hinv [OF _ inv_init2 _ hinv_init2]) (simp_all add: winv2_def init2_def make_chan_def)

text \<open>The definitions by which a concrete interleaving is evaluated.\<close>

lemmas run_defs = init1_def init2_def step1_def step2_def step_construct_def startTask_def
  step_go_def step_cancel_def Cancel_def step_recv_err_def step_recv_done_def step_watch1_def
  step_watch2_def finish_def emit_def set_pc_def die_def make_chan_def chan_close_def
  chan_send_def chan_recv_def wg_Add_def wg_Done_def wg_Wait_def ErrC_def DoneC_def

subsection \<open>Consequences\<close>

lemma tasks_after_return:
  assumes "inv ts p" and "watcher p \<noteq> NotSpawned"
  shows "tasks (tg p) = ts @ ts \<and> map fst (gos p) = ts \<and> todo p = []"
  using assms by (auto simp: inv_def)

lemma send_ready_inv:
  assumes "inv ts p"
  shows "send_ready p"
  unfolding send_ready_def list_all_length
proof (intro allI impI)
  fix i assume i: "i < length (gos p)"
  have len: "length (gos p) \<le> length ts"
    using assms by (auto simp: inv_def dest: arg_cong [where f = length])
  show "case snd (gos p ! i) of Sending e \<Rightarrow> is_Ok (chan_send e (errC (tg p))) | _ \<Rightarrow> True"
  proof (cases "snd (gos p ! i)")
    case (Sending e)
    have "0 < n_active (gos p)" using n_active_pos [OF i] Sending by simp
    moreover have "n_left (gos p) < length (gos p)" using n_left_lt [OF i] Sending by simp
    ultimately show ?thesis
      using assms len Sending by (auto simp: inv_def chan_send_def)
  qed simp_all
qed

lemma sent_at_most_once:
  assumes "hinv p"
  shows "length (by_task i (sent (hist p))) \<le> 1"
proof -
  have t: "task_ok (hist p) i (pc_at (gos p) i)"
    using assms unfolding hinv_def by blast
  show ?thesis
  proof (cases "pc_at (gos p) i")
    case None
    then show ?thesis using t by (simp add: task_ok_def)
  next
    case (Some pc)
    then show ?thesis using t by (cases pc) (auto simp: task_ok_def)
  qed
qed

lemma count_by_task: "count (mset xs) (i, e) = count (mset (by_task i xs)) e"
  by (induction xs) (auto simp: by_task_def)

lemma mset_eq_by_task:
  assumes "\<And>i. by_task i xs = by_task i ys"
  shows "mset xs = mset ys"
proof (rule multiset_eqI)
  fix x :: "nat \<times> 'a"
  obtain i e where x: "x = (i, e)" by (cases x)
  show "count (mset xs) x = count (mset ys) x"
    unfolding x count_by_task using assms by simp
qed

lemma hinv_task:
  assumes "hinv p"
  shows "task_ok (hist p) i (pc_at (gos p) i)"
  using assms unfolding hinv_def by blast

lemma invoked_count:
  assumes "hinv p"
  shows "count_list (hist p) (Invoked i) =
         (if i < length (gos p) \<and> snd (gos p ! i) \<noteq> Spawned then 1 else 0)"
  using hinv_task [OF assms, of i] by (auto simp: task_ok_def pc_at_def)

lemma done_count:
  assumes "hinv p"
  shows "count_list (hist p) (DoneCalled i) =
         (if i < length (gos p) \<and> \<not> active (snd (gos p ! i)) then 1 else 0)"
  using hinv_task [OF assms, of i] by (auto simp: task_ok_def pc_at_def)

lemma sent_is_returned:
  assumes "hinv p" and "n_active (gos p) = 0"
  shows "by_task i (sent (hist p)) = by_task i (returned (hist p))"
proof (cases "i < length (gos p)")
  case True
  have "\<not> active (snd (gos p ! i))"
    using n_active_pos [OF True] assms(2) by auto
  then have "body_left (snd (gos p ! i))"
    by (cases "snd (gos p ! i)") simp_all
  then show ?thesis
    using hinv_task [OF assms(1), of i] True by (simp add: task_ok_def pc_at_def)
next
  case False
  then show ?thesis
    using hinv_task [OF assms(1), of i] by (simp add: task_ok_def pc_at_def)
qed

lemma delivered_is_returned:
  assumes "inv ts p" and "hinv p" and "chan_closed (errC (tg p))"
  shows "mset (map snd (returned (hist p))) = mset (received (hist p)) + mset (chan_buf (errC (tg p)))"
    and "n_active (gos p) = 0" and "todo p = []" and "length (gos p) = length ts"
proof -
  show q: "n_active (gos p) = 0" and t: "todo p = []"
    using assms(1,3) by (auto simp: inv_def)
  show "length (gos p) = length ts"
    using assms(1) t by (auto simp: inv_def dest: arg_cong [where f = length])
  have "mset (sent (hist p)) = mset (returned (hist p))"
    by (rule mset_eq_by_task) (rule sent_is_returned [OF assms(2) q])
  then have "mset (map snd (sent (hist p))) = mset (map snd (returned (hist p)))"
    by (metis mset_map)
  then show "mset (map snd (returned (hist p))) = mset (received (hist p)) + mset (chan_buf (errC (tg p)))"
    using assms(2) by (simp add: hinv_def)
qed

subsection \<open>Repeated cancellation\<close>

lemma Cancel_consistent:
  assumes "cancelOnce g \<longleftrightarrow> chan_closed (cancelC g)"
  shows "Cancel g = Inr (cancelled g)"
  using assms by (auto simp: Cancel_def cancelled_def chan_close_def)

lemma cancelled_idem: "cancelled (cancelled g) = cancelled g"
  by (simp add: cancelled_def)

lemma Cancel_cancelled: "Cancel (cancelled g) = Inr (cancelled g)"
  by (simp add: Cancel_def cancelled_def)

lemma Cancel_n_cancelled: "Cancel_n n (cancelled g) = Inr (cancelled g)"
  by (induction n) (simp_all add: Cancel_cancelled)

lemma Cancel_n_consistent:
  assumes "cancelOnce g \<longleftrightarrow> chan_closed (cancelC g)"
  shows "Cancel_n (Suc n) g = Cancel g"
  by (simp add: Cancel_consistent [OF assms] Cancel_n_cancelled)

lemma cancel_facts:
  assumes "inv ts p" and "hinv p"
  shows "Cancel (tg p) = Inr (cancelled (tg p))"
    and "Cancel_n (Suc n) (tg p) = Cancel (tg p)"
    and "count_list (hist p) (CancelCalled True) \<le> 1"
    and "crash p \<noteq> Some CloseOfClosedChannel"
    and "watcher p \<noteq> NotSpawned \<Longrightarrow> step_cancel p \<noteq> None"
proof -
  have c: "cancelOnce (tg p) \<longleftrightarrow> chan_closed (cancelC (tg p))"
    using assms(1) by (simp add: inv_def)
  show "Cancel (tg p) = Inr (cancelled (tg p))" by (rule Cancel_consistent [OF c])
  show "Cancel_n (Suc n) (tg p) = Cancel (tg p)" by (rule Cancel_n_consistent [OF c])
  show "count_list (hist p) (CancelCalled True) \<le> 1"
    using assms(2) by (simp add: hinv_def)
  show "crash p \<noteq> Some CloseOfClosedChannel"
    using assms(1) by (auto simp: inv_def)
  show "watcher p \<noteq> NotSpawned \<Longrightarrow> step_cancel p \<noteq> None"
    by (simp add: step_cancel_def split: sum.splits)
qed

lemma invoke_enabled:
  assumes "i < length (gos p)" and "snd (gos p ! i) = Spawned"
  shows "step_go i p = Some (set_pc i Running (emit (Invoked i) p))"
  using assms by (simp add: step_go_def)

subsection \<open>Groups of no tasks and the run of the constructor\<close>

lemma quiet_shared:
  assumes "quiet p"
  shows "step_construct p = Some p' \<Longrightarrow> quiet p'"
    and "step_go i p = None"
    and "step_cancel p = Some p' \<Longrightarrow> quiet p'"
    and "step_recv_err p = Some p' \<Longrightarrow> quiet p'"
  using assms
  by (auto simp: quiet_def step_construct_def step_go_def step_cancel_def Cancel_def chan_close_def
      step_recv_err_def ErrC_def chan_recv_def emit_def die_def
      split: if_splits sum.splits option.splits list.splits)

lemma quiet_step1:
  assumes "quiet p" and "winv1 p" and "step1 a p = Some p'"
  shows "quiet p'"
proof (cases a)
    case Watch
    then have s: "step_watch1 p = Some p'"
      using assms(3) by (auto simp: step1_def split: if_splits)
    show ?thesis
    proof (cases "watcher p")
      case (WReturning ds q)
      then show ?thesis
        using assms(1,2) s
        by (cases ds)
          (auto simp: quiet_def winv1_def step_watch1_def emit_def finish_def chan_close_def
            split: if_splits dcall1.splits)
    qed (use assms(1,2) s in
        \<open>auto simp: quiet_def winv1_def step_watch1_def emit_def wg_Wait_def split: if_splits\<close>)
qed (use assms quiet_shared [OF assms(1)] in \<open>auto simp: step1_def split: if_splits\<close>)

lemma quiet_step2:
  assumes "quiet p" and "winv2 p" and "step2 a p = Some p'"
  shows "quiet p'"
proof (cases a)
    case Watch
    then have s: "step_watch2 p = Some p'"
      using assms(3) by (auto simp: step2_def split: if_splits)
    show ?thesis
    proof (cases "watcher p")
      case (WReturning ds q)
      then show ?thesis
        using assms(1,2) s
        by (cases ds)
          (auto simp: quiet_def winv2_def step_watch2_def emit_def finish_def chan_close_def
            split: if_splits dcall2.splits)
    qed (use assms(1,2) s in
        \<open>auto simp: quiet_def winv2_def step_watch2_def emit_def wg_Wait_def split: if_splits\<close>)
  next
    case ReadDoneC
    then show ?thesis
      using assms
      by (auto simp: step2_def quiet_def step_recv_done_def DoneC_def chan_recv_def emit_def
          split: if_splits option.splits list.splits)
qed (use assms quiet_shared [OF assms(1)] in \<open>auto simp: step2_def split: if_splits\<close>)

lemma exec1_quiet:
  "exec1 sched p = Some p' \<Longrightarrow> inv ts p \<Longrightarrow> winv1 p \<Longrightarrow> quiet p \<Longrightarrow> quiet p'"
proof (induction sched arbitrary: p)
  case Nil
  then show ?case by simp
next
  case (Cons a sched)
  from Cons.prems(1) obtain p'' where s: "step1 a p = Some p''" and e: "exec1 sched p'' = Some p'"
    by (auto split: option.splits)
  from inv_step1 [OF Cons.prems(2,3) s] quiet_step1 [OF Cons.prems(4,3) s]
  show ?case by (intro Cons.IH [OF e]) simp_all
qed

lemma exec2_quiet:
  "exec2 sched p = Some p' \<Longrightarrow> inv ts p \<Longrightarrow> winv2 p \<Longrightarrow> quiet p \<Longrightarrow> quiet p'"
proof (induction sched arbitrary: p)
  case Nil
  then show ?case by simp
next
  case (Cons a sched)
  from Cons.prems(1) obtain p'' where s: "step2 a p = Some p''" and e: "exec2 sched p'' = Some p'"
    by (auto split: option.splits)
  from inv_step2 [OF Cons.prems(2,3) s] quiet_step2 [OF Cons.prems(4,3) s]
  show ?case by (intro Cons.IH [OF e]) simp_all
qed

lemma watch1_enabled:
  assumes "quiet p" and "winv1 p"
  shows "watcher p = NotSpawned \<or> watcher p = WExited \<or> step1 Watch p \<noteq> None"
proof (cases "watcher p")
  case (WReturning ds q)
  then show ?thesis
    using assms
    by (cases ds) (auto simp: quiet_def winv1_def step1_def step_watch1_def chan_close_def)
qed (use assms in \<open>auto simp: quiet_def winv1_def step1_def step_watch1_def wg_Wait_def\<close>)

lemma watch2_enabled:
  assumes "quiet p" and "winv2 p"
  shows "watcher p = NotSpawned \<or> watcher p = WExited \<or> step2 Watch p \<noteq> None"
proof (cases "watcher p")
  case (WReturning ds q)
  then show ?thesis
    using assms
    by (cases ds) (auto simp: quiet_def winv2_def step2_def step_watch2_def chan_close_def)
qed (use assms in \<open>auto simp: quiet_def winv2_def step2_def step_watch2_def wg_Wait_def\<close>)

lemma construct_run1:
  assumes "todo p = ts" and "crash p = None" and "watcher p = NotSpawned" and "0 \<le> wg (tg p)"
  shows "\<exists>q. exec1 (replicate (length ts + 1) Construct) p = Some q \<and> crash q = None \<and>
             watcher q = WRunning 0 [] \<and> todo q = [] \<and> gos q = gos p @ spawned ts \<and>
             wg (tg q) = wg (tg p) + int (length ts)"
  using assms
proof (induction ts arbitrary: p)
  case Nil
  then show ?case
    by (simp add: step1_def step_construct_def emit_def spawned_def)
next
  case (Cons t ts)
  obtain p' where s: "step1 Construct p = Some p'" and p': "todo p' = ts" "crash p' = None"
    "watcher p' = NotSpawned" "wg (tg p') = wg (tg p) + 1" "gos p' = gos p @ [(t, Spawned)]"
    using Cons.prems
    by (auto simp: step1_def step_construct_def startTask_def wg_Add_def emit_def Let_def)
  from Cons.IH [OF p'(1-3)] p'(4) Cons.prems(4)
  obtain q where "exec1 (replicate (length ts + 1) Construct) p' = Some q" "crash q = None"
    "watcher q = WRunning 0 []" "todo q = []" "gos q = gos p' @ spawned ts"
    "wg (tg q) = wg (tg p') + int (length ts)"
    by auto
  then show ?case
    using s p' by (simp add: spawned_def)
qed

lemma construct_run2:
  assumes "todo p = ts" and "crash p = None" and "watcher p = NotSpawned" and "0 \<le> wg (tg p)"
  shows "\<exists>q. exec2 (replicate (length ts + 1) Construct) p = Some q \<and> crash q = None \<and>
             watcher q = WRunning 0 [] \<and> todo q = [] \<and> gos q = gos p @ spawned ts \<and>
             wg (tg q) = wg (tg p) + int (length ts)"
  using assms
proof (induction ts arbitrary: p)
  case Nil
  then show ?case
    by (simp add: step2_def step_construct_def emit_def spawned_def)
next
  case (Cons t ts)
  obtain p' where s: "step2 Construct p = Some p'" and p': "todo p' = ts" "crash p' = None"
    "watcher p' = NotSpawned" "wg (tg p') = wg (tg p) + 1" "gos p' = gos p @ [(t, Spawned)]"
    using Cons.prems
    by (auto simp: step2_def step_construct_def startTask_def wg_Add_def emit_def Let_def)
  from Cons.IH [OF p'(1-3)] p'(4) Cons.prems(4)
  obtain q where "exec2 (replicate (length ts + 1) Construct) p' = Some q" "crash q = None"
    "watcher q = WRunning 0 []" "todo q = []" "gos q = gos p' @ spawned ts"
    "wg (tg q) = wg (tg p') + int (length ts)"
    by auto
  then show ?case
    using s p' by (simp add: spawned_def)
qed

lemma NewFixedTaskGroup1_returns:
  "\<exists>q. NewFixedTaskGroup1 ts = Some q \<and> crash q = None \<and> watcher q = WRunning 0 [] \<and>
       todo q = [] \<and> gos q = spawned ts \<and> wg (tg q) = int (length ts)"
  using construct_run1 [of "init1 ts" ts]
  by (simp add: NewFixedTaskGroup1_def) (simp add: init1_def)

lemma NewFixedTaskGroup2_returns:
  "\<exists>q. NewFixedTaskGroup2 ts = Some q \<and> crash q = None \<and> watcher q = WRunning 0 [] \<and>
       todo q = [] \<and> gos q = spawned ts \<and> wg (tg q) = int (length ts)"
  using construct_run2 [of "init2 ts" ts]
  by (simp add: NewFixedTaskGroup2_def) (simp add: init2_def)

lemma send_step:
  assumes "inv ts p" and "i < length (gos p)" and "snd (gos p ! i) = Sending e"
  shows "step_go i p =
           Some (set_pc i (Deferred None) (emit (Sent i e)
             (p\<lparr>tg := (tg p)\<lparr>errC := (errC (tg p))\<lparr>chan_buf := chan_buf (errC (tg p)) @ [e]\<rparr>\<rparr>\<rparr>)))"
proof -
  have "list_all (\<lambda>g. case snd g of Sending e \<Rightarrow> is_Ok (chan_send e (errC (tg p))) | _ \<Rightarrow> True) (gos p)"
    using send_ready_inv [OF assms(1)] by (simp add: send_ready_def)
  then have "is_Ok (chan_send e (errC (tg p)))"
    using assms(2,3) by (auto simp: list_all_length dest!: spec [of _ i])
  then have "chan_send e (errC (tg p)) = Ok ((errC (tg p))\<lparr>chan_buf := chan_buf (errC (tg p)) @ [e]\<rparr>)"
    by (auto simp: chan_send_def split: if_splits)
  then show ?thesis
    using assms(2,3) by (simp add: step_go_def)
qed

lemma done_step:
  assumes "inv ts p" and "i < length (gos p)" and "snd (gos p ! i) = Deferred q"
  shows "step_go i p =
           Some (set_pc i (case q of None \<Rightarrow> Exited | Some q' \<Rightarrow> Unwound q')
             (emit (DoneCalled i) (p\<lparr>tg := (tg p)\<lparr>wg := wg (tg p) - 1\<rparr>\<rparr>)))"
proof -
  have "0 < wg (tg p)"
    using n_active_pos [OF assms(2)] assms(1,3) by (simp add: inv_def)
  then show ?thesis
    using assms(2,3) by (simp add: step_go_def wg_Done_def wg_Add_def)
qed

subsection \<open>Renaming errors commutes with every step\<close>

lemma map_prog_simps [simp]:
  "tg (map_prog f p) = map_group f (tg p)"
  "todo (map_prog f p) = map (map_Task f) (todo p)"
  "gos (map_prog f p) = map (\<lambda>g. (map_Task f (fst g), map_gpc f (snd g))) (gos p)"
  "watcher (map_prog f p) = watcher p"
  "crash (map_prog f p) = crash p"
  "hist (map_prog f p) = map (map_event f) (hist p)"
  by (simp_all add: map_prog_def)

lemma map_group_simps [simp]:
  "tasks (map_group f g) = map (map_Task f) (tasks g)"
  "wg (map_group f g) = wg g"
  "errC (map_group f g) = map_chan f (errC g)"
  "cancelC (map_group f g) = cancelC g"
  "cancelOnce (map_group f g) = cancelOnce g"
  by (simp_all add: map_group_def)

lemma map_group_doneC [simp]: "doneC (map_group f g) = doneC g"
  by (cases g) (simp add: map_group_def)

lemma map_group_doneC_update [simp]:
  "map_group f (g\<lparr>doneC := c\<rparr>) = (map_group f g)\<lparr>doneC := c\<rparr>"
  by (cases g) (simp add: map_group_def)

lemma map_group_updates [simp]:
  "map_group f (g\<lparr>tasks := ts\<rparr>) = (map_group f g)\<lparr>tasks := map (map_Task f) ts\<rparr>"
  "map_group f (g\<lparr>wg := n\<rparr>) = (map_group f g)\<lparr>wg := n\<rparr>"
  "map_group f (g\<lparr>errC := e\<rparr>) = (map_group f g)\<lparr>errC := map_chan f e\<rparr>"
  "map_group f (g\<lparr>cancelC := c\<rparr>) = (map_group f g)\<lparr>cancelC := c\<rparr>"
  "map_group f (g\<lparr>cancelOnce := b\<rparr>) = (map_group f g)\<lparr>cancelOnce := b\<rparr>"
  by (simp_all add: map_group_def)

lemma map_prog_updates [simp]:
  "map_prog f (p\<lparr>tg := g\<rparr>) = (map_prog f p)\<lparr>tg := map_group f g\<rparr>"
  "map_prog f (p\<lparr>todo := ts\<rparr>) = (map_prog f p)\<lparr>todo := map (map_Task f) ts\<rparr>"
  "map_prog f (p\<lparr>watcher := w\<rparr>) = (map_prog f p)\<lparr>watcher := w\<rparr>"
  "map_prog f (p\<lparr>crash := c\<rparr>) = (map_prog f p)\<lparr>crash := c\<rparr>"
  by (simp_all add: map_prog_def)

lemma map_chan_updates [simp]:
  "map_chan f (c\<lparr>chan_buf := b\<rparr>) = (map_chan f c)\<lparr>chan_buf := map f b\<rparr>"
  "map_chan f (c\<lparr>chan_closed := x\<rparr>) = (map_chan f c)\<lparr>chan_closed := x\<rparr>"
  by (simp_all add: map_chan_def)

lemma map_chan_simps [simp]:
  "chan_buf (map_chan f c) = map f (chan_buf c)"
  "chan_cap (map_chan f c) = chan_cap c"
  "chan_closed (map_chan f c) = chan_closed c"
  by (simp_all add: map_chan_def)

lemma map_prog_emit: "map_prog f (emit ev p) = emit (map_event f ev) (map_prog f p)"
  by (simp add: map_prog_def emit_def)

lemma map_prog_die: "map_prog f (die q p) = die q (map_prog f p)"
  by (simp add: map_prog_def die_def emit_def)

lemma gos_emit [simp]: "gos (emit ev p) = gos p"
  by (simp add: emit_def)

lemma map_prog_set_pc:
  "i < length (gos p) \<Longrightarrow> map_prog f (set_pc i pc p) = set_pc i (map_gpc f pc) (map_prog f p)"
  by (simp add: map_prog_def set_pc_def map_update)

lemma map_step_construct:
  "step_construct (map_prog f p) = map_option (map_prog f) (step_construct p)"
  by (cases "todo p")
    (auto simp: step_construct_def startTask_def wg_Add_def Let_def map_prog_def map_group_def
      emit_def die_def)

lemma map_step_cancel:
  "step_cancel (map_prog f p) = map_option (map_prog f) (step_cancel p)"
  by (auto simp: step_cancel_def Cancel_def chan_close_def map_prog_def map_group_def emit_def die_def)

lemma map_step_recv_err:
  "step_recv_err (map_prog f p) = map_option (map_prog f) (step_recv_err p)"
  by (cases "chan_buf (errC (tg p))")
    (auto simp: step_recv_err_def ErrC_def chan_recv_def map_prog_def map_group_def map_chan_def emit_def)

lemma map_group_doneC_same [simp]: "(map_group f g)\<lparr>doneC := doneC g\<rparr> = map_group f g"
  by (cases g) (simp add: map_group_def)

lemma map_prog_tg_same [simp]: "(map_prog f p)\<lparr>tg := map_group f (tg p)\<rparr> = map_prog f p"
  by (simp add: map_prog_def)

lemma map_step_recv_done:
  "step_recv_done (map_prog f p) = map_option (map_prog f) (step_recv_done p)"
  by (cases "chan_buf (doneC (tg p))")
    (auto simp: step_recv_done_def DoneC_def chan_recv_def map_prog_emit)

lemma map_step_go:
  "step_go i (map_prog f p) = map_option (map_prog f) (step_go i p)"
proof (cases "i < length (gos p)")
  case False
  then show ?thesis by (simp add: step_go_def)
next
  case True
  show ?thesis
  proof (cases "snd (gos p ! i)")
    case Running
    then show ?thesis
      using True
      by (cases "fst (gos p ! i) (chan_closed (cancelC (tg p)))")
        (auto simp: step_go_def map_prog_emit map_prog_set_pc map_Task_def split: option.splits)
  qed (use True in \<open>auto simp: step_go_def map_prog_emit map_prog_set_pc map_prog_die chan_send_def
        wg_Done_def wg_Add_def split: option.splits\<close>)
qed

lemma map_step_watch1:
  "step_watch1 (map_prog f p) = map_option (map_prog f) (step_watch1 p)"
proof (cases "watcher p")
  case (WReturning ds q)
  then show ?thesis
    by (cases ds) (auto simp: step_watch1_def map_prog_emit chan_close_def split: dcall1.splits)
qed (auto simp: step_watch1_def map_prog_emit map_prog_die)

lemma map_step_watch2:
  "step_watch2 (map_prog f p) = map_option (map_prog f) (step_watch2 p)"
proof (cases "watcher p")
  case (WReturning ds q)
  then show ?thesis
    by (cases ds) (auto simp: step_watch2_def map_prog_emit chan_close_def split: dcall2.splits)
qed (auto simp: step_watch2_def map_prog_emit map_prog_die)

lemma map_step1: "step1 a (map_prog f p) = map_option (map_prog f) (step1 a p)"
  by (cases a)
    (simp_all add: step1_def map_step_construct map_step_go map_step_watch1 map_step_cancel
      map_step_recv_err)

lemma map_step2: "step2 a (map_prog f p) = map_option (map_prog f) (step2 a p)"
  by (cases a)
    (simp_all add: step2_def map_step_construct map_step_go map_step_watch2 map_step_cancel
      map_step_recv_err map_step_recv_done)

lemma map_exec1: "exec1 sched (map_prog f p) = map_option (map_prog f) (exec1 sched p)"
  by (induction sched arbitrary: p) (auto simp: map_step1 split: option.splits)

lemma map_exec2: "exec2 sched (map_prog f p) = map_option (map_prog f) (exec2 sched p)"
  by (induction sched arbitrary: p) (auto simp: map_step2 split: option.splits)

lemma map_init1: "init1 (map (map_Task f) ts) = map_prog f (init1 ts)"
  by (simp add: init1_def map_prog_def map_group_def map_chan_def make_chan_def)

lemma map_init2: "init2 (map (map_Task f) ts) = map_prog f (init2 ts)"
  by (simp add: init2_def map_prog_def map_group_def map_chan_def make_chan_def)

subsection \<open>Each version simulates the other\<close>

lemma shared_snoc [simp]: "shared (h @ [ev]) = (if shared_event ev then shared h @ [ev] else shared h)"
  by (simp add: shared_def)

lemma proj_NotSpawned [simp]: "proj_watcher w = NotSpawned \<longleftrightarrow> w = NotSpawned"
  by (cases w) auto

lemma rel_construct:
  assumes "rel p1 p2"
  shows "(step_construct p1 = None \<longleftrightarrow> step_construct p2 = None) \<and>
         (\<forall>p1' p2'. step_construct p1 = Some p1' \<longrightarrow> step_construct p2 = Some p2' \<longrightarrow> rel p1' p2')"
  using assms
  by (cases "todo p2")
    (auto simp: rel_def step_construct_def startTask_def wg_Add_def Let_def emit_def die_def)

lemma rel_cancel:
  assumes "rel p1 p2"
  shows "(step_cancel p1 = None \<longleftrightarrow> step_cancel p2 = None) \<and>
         (\<forall>p1' p2'. step_cancel p1 = Some p1' \<longrightarrow> step_cancel p2 = Some p2' \<longrightarrow> rel p1' p2')"
  using assms
  by (auto simp: rel_def step_cancel_def Cancel_def chan_close_def emit_def die_def)

lemma rel_recv_err:
  assumes "rel p1 p2"
  shows "(step_recv_err p1 = None \<longleftrightarrow> step_recv_err p2 = None) \<and>
         (\<forall>p1' p2'. step_recv_err p1 = Some p1' \<longrightarrow> step_recv_err p2 = Some p2' \<longrightarrow> rel p1' p2')"
  using assms
  by (cases "chan_buf (errC (tg p2))")
    (auto simp: rel_def step_recv_err_def ErrC_def chan_recv_def emit_def)

lemma rel_go:
  assumes "rel p1 p2"
  shows "(step_go i p1 = None \<longleftrightarrow> step_go i p2 = None) \<and>
         (\<forall>p1' p2'. step_go i p1 = Some p1' \<longrightarrow> step_go i p2 = Some p2' \<longrightarrow> rel p1' p2')"
proof (cases "i < length (gos p2)")
  case False
  then show ?thesis using assms by (simp add: step_go_def rel_def)
next
  case True
  show ?thesis
  proof (cases "snd (gos p2 ! i)")
    case Running
    then show ?thesis
      using True assms
      by (cases "fst (gos p2 ! i) (chan_closed (cancelC (tg p2)))")
        (auto simp: step_go_def rel_def set_pc_def emit_def split: option.splits)
  qed (use True assms in \<open>auto simp: step_go_def rel_def set_pc_def emit_def die_def chan_send_def
        wg_Done_def wg_Add_def split: option.splits\<close>)
qed

lemma rel_watch_2_1:
  assumes "rel p1 p2" and "winv2 p2" and "step_watch2 p2 = Some p2'"
  shows "rel p1 p2' \<or> (\<exists>p1'. step_watch1 p1 = Some p1' \<and> rel p1' p2')"
proof (cases "watcher p2")
  case NotSpawned
  then show ?thesis using assms(3) by (simp add: step_watch2_def)
next
  case (WRunning n ds)
  then consider "n = 0" "ds = []" | "n = 1" "ds = [CloseErrC]" | "n = 2" "ds = [CloseDoneC, CloseErrC]"
    using assms(2) by (auto simp: winv2_def)
  then show ?thesis
  proof cases
    case 1
    then have "rel p1 p2'"
      using assms(1,3) WRunning by (auto simp: rel_def step_watch2_def emit_def)
    then show ?thesis ..
  next
    case 2
    then have "rel p1 p2'"
      using assms(1,3) WRunning by (auto simp: rel_def step_watch2_def emit_def)
    then show ?thesis ..
  next
    case 3
    then have w: "wg (tg p2) = 0"
      and p2': "p2' = emit Waited (p2\<lparr>watcher := WReturning [CloseDoneC, CloseErrC] None\<rparr>)"
      using assms(3) WRunning by (auto simp: step_watch2_def wg_Wait_def split: if_splits)
    have "step_watch1 p1 = Some (emit Waited (p1\<lparr>watcher := WRunning 1 []\<rparr>))"
      using assms(1) WRunning w by (simp add: rel_def step_watch1_def wg_Wait_def)
    moreover have "rel (emit Waited (p1\<lparr>watcher := WRunning 1 []\<rparr>)) p2'"
      using assms(1) unfolding p2' by (simp add: rel_def emit_def)
    ultimately show ?thesis by blast
  qed
next
  case (WReturning ds q)
  then have q: "q = None"
    using assms(2) by (simp add: winv2_def)
  from WReturning consider "ds = [CloseDoneC, CloseErrC]" "\<not> chan_closed (doneC (tg p2))"
    | "ds = [CloseErrC]" "\<not> chan_closed (errC (tg p2))" | "ds = []"
    using assms(2) by (auto simp: winv2_def)
  then show ?thesis
  proof cases
    case 1
    then have p2': "p2' = emit ClosedDoneC (p2\<lparr>tg := (tg p2)\<lparr>doneC := (doneC (tg p2))\<lparr>chan_closed := True\<rparr>\<rparr>,
        watcher := WReturning [CloseErrC] None\<rparr>)"
      using assms(3) WReturning q by (simp add: step_watch2_def chan_close_def)
    have "step_watch1 p1 = Some (emit DeferPushed (p1\<lparr>watcher := WReturning [CloseErrC1] None\<rparr>))"
      using assms(1) WReturning 1 by (simp add: rel_def step_watch1_def)
    moreover have "rel (emit DeferPushed (p1\<lparr>watcher := WReturning [CloseErrC1] None\<rparr>)) p2'"
      using assms(1) unfolding p2' by (simp add: rel_def emit_def)
    ultimately show ?thesis by blast
  next
    case 2
    then have p2': "p2' = emit ClosedErrC (p2\<lparr>tg := (tg p2)\<lparr>errC := (errC (tg p2))\<lparr>chan_closed := True\<rparr>\<rparr>,
        watcher := WReturning [] None\<rparr>)"
      using assms(3) WReturning q by (simp add: step_watch2_def chan_close_def)
    have "step_watch1 p1 = Some (emit ClosedErrC (p1\<lparr>tg := (tg p1)\<lparr>errC := (errC (tg p1))\<lparr>chan_closed := True\<rparr>\<rparr>,
        watcher := WReturning [] None\<rparr>))"
      using assms(1) WReturning 2 q by (simp add: rel_def step_watch1_def chan_close_def)
    moreover have "rel (emit ClosedErrC (p1\<lparr>tg := (tg p1)\<lparr>errC := (errC (tg p1))\<lparr>chan_closed := True\<rparr>\<rparr>,
        watcher := WReturning [] None\<rparr>)) p2'"
      using assms(1) unfolding p2' by (simp add: rel_def emit_def)
    ultimately show ?thesis by blast
  next
    case 3
    then have p2': "p2' = emit WatcherExited (p2\<lparr>watcher := WExited\<rparr>)"
      using assms(3) WReturning q by (simp add: step_watch2_def finish_def)
    have "step_watch1 p1 = Some (emit WatcherExited (p1\<lparr>watcher := WExited\<rparr>))"
      using assms(1) WReturning 3 q by (simp add: rel_def step_watch1_def finish_def)
    moreover have "rel (emit WatcherExited (p1\<lparr>watcher := WExited\<rparr>)) p2'"
      using assms(1) unfolding p2' by (simp add: rel_def emit_def)
    ultimately show ?thesis by blast
  qed
next
  case WExited
  then show ?thesis using assms(3) by (simp add: step_watch2_def)
next
  case (WUnwound q)
  then show ?thesis using assms(2) by (simp add: winv2_def)
qed

lemma step2_sim:
  assumes "rel p1 p2" and "winv2 p2" and "step2 a p2 = Some p2'"
  shows "rel p1 p2' \<or> (\<exists>p1'. step1 a p1 = Some p1' \<and> rel p1' p2')"
proof -
  have c: "crash p2 = None" "crash p1 = None"
    using assms(1,3) by (auto simp: step2_def rel_def split: if_splits)
  show ?thesis
  proof (cases a)
    case Construct
    then show ?thesis
      using assms(3) c rel_construct [OF assms(1)]
      by (cases "step_construct p1") (auto simp: step1_def step2_def)
  next
    case (Go i)
    then show ?thesis
      using assms(3) c rel_go [OF assms(1), of i]
      by (cases "step_go i p1") (auto simp: step1_def step2_def)
  next
    case Watch
    then show ?thesis
      using assms c rel_watch_2_1 [OF assms(1,2)] by (auto simp: step1_def step2_def)
  next
    case CallCancel
    then show ?thesis
      using assms(3) c rel_cancel [OF assms(1)]
      by (cases "step_cancel p1") (auto simp: step1_def step2_def)
  next
    case ReadErrC
    then show ?thesis
      using assms(3) c rel_recv_err [OF assms(1)]
      by (cases "step_recv_err p1") (auto simp: step1_def step2_def)
  next
    case ReadDoneC
    then have "rel p1 p2'"
      using assms(1,3) c
      by (auto simp: step2_def step_recv_done_def DoneC_def chan_recv_def emit_def rel_def
          split: if_splits option.splits list.splits)
    then show ?thesis ..
  qed
qed

lemma exec2_sim:
  "exec2 sched p2 = Some p2' \<Longrightarrow> rel p1 p2 \<Longrightarrow> inv ts p2 \<Longrightarrow> winv2 p2 \<Longrightarrow>
   \<exists>sched1 p1'. exec1 sched1 p1 = Some p1' \<and> rel p1' p2'"
proof (induction sched arbitrary: p1 p2)
  case Nil
  then have "exec1 [] p1 = Some p1 \<and> rel p1 p2'" by simp
  then show ?case by blast
next
  case (Cons a sched)
  from Cons.prems(1) obtain q2 where s: "step2 a p2 = Some q2" and e: "exec2 sched q2 = Some p2'"
    by (auto split: option.splits)
  from inv_step2 [OF Cons.prems(3,4) s] have i: "inv ts q2" and w: "winv2 q2" by simp_all
  from step2_sim [OF Cons.prems(2,4) s] show ?case
  proof
    assume "rel p1 q2"
    from Cons.IH [OF e this i w] show ?thesis .
  next
    assume "\<exists>q1. step1 a p1 = Some q1 \<and> rel q1 q2"
    then obtain q1 where s1: "step1 a p1 = Some q1" and r: "rel q1 q2" by blast
    from Cons.IH [OF e r i w] obtain sched1 p1' where "exec1 sched1 q1 = Some p1'" "rel p1' p2'"
      by blast
    then have "exec1 (a # sched1) p1 = Some p1' \<and> rel p1' p2'"
      using s1 by simp
    then show ?thesis by blast
  qed
qed

lemma exec2_append:
  "exec2 (xs @ ys) p = (case exec2 xs p of None \<Rightarrow> None | Some p' \<Rightarrow> exec2 ys p')"
  by (induction xs arbitrary: p) (auto split: option.splits)

lemma shared_append [simp]: "shared (h @ h') = shared h @ shared h'"
  by (simp add: shared_def)

lemma shared_Cons [simp]: "shared (ev # h) = (if shared_event ev then ev # shared h else shared h)"
  by (simp add: shared_def)

lemma shared_Nil [simp]: "shared [] = []"
  by (simp add: shared_def)

lemma rel_watch_1_2:
  assumes "rel p1 p2" and "winv2 p2" and "crash p2 = None" and "step_watch1 p1 = Some p1'"
  shows "\<exists>sched2 p2'. exec2 sched2 p2 = Some p2' \<and> rel p1' p2'"
proof (cases "watcher p2")
  case NotSpawned
  then show ?thesis using assms by (simp add: rel_def step_watch1_def)
next
  case (WRunning n ds)
  then have n: "n = 0 \<and> ds = [] \<or> n = 1 \<and> ds = [CloseErrC] \<or> n = 2 \<and> ds = [CloseDoneC, CloseErrC]"
    using assms(2) by (auto simp: winv2_def)
  have w0: "wg (tg p2) = 0" and p1': "p1' = emit Waited (p1\<lparr>watcher := WRunning 1 []\<rparr>)"
    using assms(1,4) WRunning by (auto simp: rel_def step_watch1_def wg_Wait_def split: if_splits)
  define q where "q = emit Waited (p2\<lparr>watcher := WReturning [CloseDoneC, CloseErrC] None\<rparr>)"
  have r0: "rel p1' q"
    using assms(1) unfolding p1' q_def by (simp add: rel_def emit_def)
  from n consider "n = 0" "ds = []" | "n = 1" "ds = [CloseErrC]" | "n = 2" "ds = [CloseDoneC, CloseErrC]"
    by blast
  then show ?thesis
  proof cases
    case 1
    have "exec2 [Watch, Watch, Watch] p2 =
          Some (emit Waited (emit DeferPushed (emit DeferPushed p2)\<lparr>watcher := WReturning [CloseDoneC, CloseErrC] None\<rparr>))"
      using WRunning 1 w0 assms(3)
      by (simp add: step2_def step_watch2_def emit_def wg_Wait_def)
    moreover have "rel p1' (emit Waited (emit DeferPushed (emit DeferPushed p2)\<lparr>watcher := WReturning [CloseDoneC, CloseErrC] None\<rparr>))"
      using assms(1) unfolding p1' by (simp add: rel_def emit_def)
    ultimately show ?thesis by blast
  next
    case 2
    have "exec2 [Watch, Watch] p2 =
          Some (emit Waited (emit DeferPushed p2\<lparr>watcher := WReturning [CloseDoneC, CloseErrC] None\<rparr>))"
      using WRunning 2 w0 assms(3)
      by (simp add: step2_def step_watch2_def emit_def wg_Wait_def)
    moreover have "rel p1' (emit Waited (emit DeferPushed p2\<lparr>watcher := WReturning [CloseDoneC, CloseErrC] None\<rparr>))"
      using assms(1) unfolding p1' by (simp add: rel_def emit_def)
    ultimately show ?thesis by blast
  next
    case 3
    have "exec2 [Watch] p2 = Some q"
      using WRunning 3 w0 assms(3) unfolding q_def
      by (simp add: step2_def step_watch2_def emit_def wg_Wait_def)
    then show ?thesis using r0 by blast
  qed
next
  case (WReturning ds q)
  then have ds: "q = None" "ds = [CloseDoneC, CloseErrC] \<and> \<not> chan_closed (errC (tg p2)) \<and> \<not> chan_closed (doneC (tg p2))
       \<or> ds = [CloseErrC] \<and> \<not> chan_closed (errC (tg p2)) \<or> ds = []"
    using assms(2) by (auto simp: winv2_def)
  from ds(2) consider "ds = [CloseDoneC, CloseErrC]" "\<not> chan_closed (doneC (tg p2))"
    | "ds = [CloseErrC]" "\<not> chan_closed (errC (tg p2))" | "ds = []"
    by blast
  then show ?thesis
  proof cases
    case 1
    obtain p2' where s: "step2 Watch p2 = Some p2'" and r: "rel p1' p2'"
      using assms(1,3,4) WReturning ds(1) 1
      by (auto simp: rel_def step2_def step_watch1_def step_watch2_def emit_def chan_close_def)
    then have "exec2 [Watch] p2 = Some p2'" by simp
    with r show ?thesis by blast
  next
    case 2
    obtain p2' where s: "step2 Watch p2 = Some p2'" and r: "rel p1' p2'"
      using assms(1,3,4) WReturning ds(1) 2
      by (auto simp: rel_def step2_def step_watch1_def step_watch2_def emit_def chan_close_def)
    then have "exec2 [Watch] p2 = Some p2'" by simp
    with r show ?thesis by blast
  next
    case 3
    obtain p2' where s: "step2 Watch p2 = Some p2'" and r: "rel p1' p2'"
      using assms(1,3,4) WReturning ds(1) 3
      by (auto simp: rel_def step2_def step_watch1_def step_watch2_def emit_def finish_def)
    then have "exec2 [Watch] p2 = Some p2'" by simp
    with r show ?thesis by blast
  qed
next
  case WExited
  then show ?thesis using assms by (simp add: rel_def step_watch1_def)
next
  case (WUnwound q)
  then show ?thesis using assms by (simp add: winv2_def)
qed

lemma step1_sim:
  assumes "rel p1 p2" and "winv2 p2" and "step1 a p1 = Some p1'"
  shows "\<exists>sched2 p2'. exec2 sched2 p2 = Some p2' \<and> rel p1' p2'"
proof -
  have c: "crash p2 = None" "crash p1 = None"
    using assms(1,3) by (auto simp: step1_def rel_def split: if_splits)
  have one: "\<exists>sched2 p2'. exec2 sched2 p2 = Some p2' \<and> rel p1' p2'"
    if "step2 a p2 = Some q" "rel p1' q" for q
  proof -
    from that have "exec2 [a] p2 = Some q \<and> rel p1' q" by simp
    then show ?thesis by blast
  qed
  show ?thesis
  proof (cases a)
    case Construct
    then show ?thesis
      using assms(3) c rel_construct [OF assms(1)]
      by (cases "step_construct p2") (auto simp: step1_def step2_def intro!: one)
  next
    case (Go i)
    then show ?thesis
      using assms(3) c rel_go [OF assms(1), of i]
      by (cases "step_go i p2") (auto simp: step1_def step2_def intro!: one)
  next
    case Watch
    then show ?thesis
      using assms c rel_watch_1_2 [OF assms(1,2) c(1)] by (auto simp: step1_def)
  next
    case CallCancel
    then show ?thesis
      using assms(3) c rel_cancel [OF assms(1)]
      by (cases "step_cancel p2") (auto simp: step1_def step2_def intro!: one)
  next
    case ReadErrC
    then show ?thesis
      using assms(3) c rel_recv_err [OF assms(1)]
      by (cases "step_recv_err p2") (auto simp: step1_def step2_def intro!: one)
  next
    case ReadDoneC
    then show ?thesis using assms(3) by (simp add: step1_def split: if_splits)
  qed
qed

lemma exec1_sim:
  "exec1 sched p1 = Some p1' \<Longrightarrow> rel p1 p2 \<Longrightarrow> inv ts p2 \<Longrightarrow> winv2 p2 \<Longrightarrow>
   \<exists>sched2 p2'. exec2 sched2 p2 = Some p2' \<and> rel p1' p2'"
proof (induction sched arbitrary: p1 p2)
  case Nil
  then have "exec2 [] p2 = Some p2 \<and> rel p1' p2" by simp
  then show ?case by blast
next
  case (Cons a sched)
  from Cons.prems(1) obtain q1 where s: "step1 a p1 = Some q1" and e: "exec1 sched q1 = Some p1'"
    by (auto split: option.splits)
  from step1_sim [OF Cons.prems(2,4) s] obtain sa q2 where
    sa: "exec2 sa p2 = Some q2" and r: "rel q1 q2" by blast
  from exec2_inv [OF sa Cons.prems(3,4)] have i: "inv ts q2" and w: "winv2 q2" by simp_all
  from Cons.IH [OF e r i w] obtain sb p2' where sb: "exec2 sb q2 = Some p2'" and r': "rel p1' p2'"
    by blast
  have "exec2 (sa @ sb) p2 = Some p2'"
    using sa sb by (simp add: exec2_append)
  with r' show ?case by blast
qed

lemma rel_init: "rel (init1 ts) (init2 ts)"
  by (simp add: rel_def init1_def init2_def shared_def)

section \<open>The order in which the watcher closes the channels\<close>

text \<open>
  Claim C1 as stated: in every interleaving, the done channel is never closed (readable)
  before the error channel has been closed. It fails: the deferred calls of the watcher run
  in the reverse order of their \<open>defer\<close> statements, so \<open>close(tg.doneC)\<close> runs first. In the
  interleaving \<open>done_first\<close> a holder has received from \<open>DoneC()\<close> while \<open>errC\<close> is still open.
\<close>

theorem done_before_errC_closed_counterexample:
  "exec2 done_first (init2 [task_A]) \<noteq> None \<and>
   last (hist (the (exec2 done_first (init2 [task_A])))) = RecvDone \<and>
   chan_closed (doneC (tg (the (exec2 done_first (init2 [task_A]))))) \<and>
   \<not> chan_closed (errC (tg (the (exec2 done_first (init2 [task_A])))))"
  by (simp add: done_first_def task_A_def run_defs)

text \<open>
  Claim C1, amended: in every interleaving, the watcher closes both channels only after the
  counter of the wait group has reached zero, when every task has been started and no task
  goroutine is active any more; it closes the done channel first and the error channel after
  it, so the error channel is never closed while the done channel is still open.
\<close>

theorem doneC_closed_before_errC:
  assumes "exec2 sched (init2 ts) = Some p"
  shows "(chan_closed (errC (tg p)) \<longrightarrow> chan_closed (doneC (tg p))) \<and>
         (chan_closed (doneC (tg p)) \<longrightarrow> wg (tg p) = 0 \<and> todo p = [] \<and> n_active (gos p) = 0)"
proof -
  from reach2_inv [OF assms] have i: "inv ts p" and w: "winv2 p" by simp_all
  have e: "chan_closed (errC (tg p)) \<longrightarrow> chan_closed (doneC (tg p))"
    using w by (cases "watcher p") (auto simp: winv2_def)
  have d: "chan_closed (doneC (tg p)) \<longrightarrow> wg (tg p) = 0 \<and> watcher p \<noteq> NotSpawned"
    using w by (cases "watcher p") (auto simp: winv2_def)
  from d i have "chan_closed (doneC (tg p)) \<longrightarrow> wg (tg p) = 0 \<and> todo p = [] \<and> n_active (gos p) = 0"
    by (auto simp: inv_def)
  with e show ?thesis by simp
qed

theorem doneC_closed_before_errC_witness:
  "exec2 (done_first @ [Watch]) (init2 [task_A]) \<noteq> None \<and>
   chan_closed (errC (tg (the (exec2 (done_first @ [Watch]) (init2 [task_A]))))) \<and>
   chan_closed (doneC (tg (the (exec2 (done_first @ [Watch]) (init2 [task_A]))))) \<and>
   wg (tg (the (exec2 (done_first @ [Watch]) (init2 [task_A])))) = 0 \<and>
   n_active (gos (the (exec2 (done_first @ [Watch]) (init2 [task_A])))) = 0"
proof -
  have ne: "exec2 (done_first @ [Watch]) (init2 [task_A]) \<noteq> None"
    by (simp add: done_first_def task_A_def run_defs)
  then have r: "exec2 (done_first @ [Watch]) (init2 [task_A]) =
           Some (the (exec2 (done_first @ [Watch]) (init2 [task_A])))"
    by auto
  have c: "chan_closed (errC (tg (the (exec2 (done_first @ [Watch]) (init2 [task_A])))))"
    by (simp add: done_first_def task_A_def run_defs)
  from doneC_closed_before_errC [OF r] c ne show ?thesis by blast
qed

section \<open>Sends on the error channel\<close>

text \<open>
  Claim C2: the error channel is made with capacity exactly the number of tasks, each task
  goroutine sends at most one error, and a send on the error channel never blocks: in every
  interleaving of either version, whether or not anyone receives from \<open>ErrC()\<close>, every
  goroutine that is at \<open>g.errC <- err\<close> finds room in the buffer of an open channel.
\<close>

theorem errC_send_never_blocks:
  assumes "exec1 sched1 (init1 ts) = Some p1" and "exec2 sched2 (init2 ts) = Some p2"
  shows "chan_cap (errC (tg p1)) = length ts \<and> send_ready p1 \<and>
         (\<forall>i. length (by_task i (sent (hist p1))) \<le> 1) \<and>
         chan_cap (errC (tg p2)) = length ts \<and> send_ready p2 \<and>
         (\<forall>i. length (by_task i (sent (hist p2))) \<le> 1)"
proof -
  have i1: "inv ts p1" and i2: "inv ts p2"
    using reach1_inv [OF assms(1)] reach2_inv [OF assms(2)] by simp_all
  have h1: "hinv p1" and h2: "hinv p2"
    using reach1_hinv [OF assms(1)] reach2_hinv [OF assms(2)] by simp_all
  have c1: "chan_cap (errC (tg p1)) = length ts" using i1 by (simp add: inv_def)
  have c2: "chan_cap (errC (tg p2)) = length ts" using i2 by (simp add: inv_def)
  show ?thesis
    using c1 c2 send_ready_inv [OF i1] send_ready_inv [OF i2]
      sent_at_most_once [OF h1] sent_at_most_once [OF h2]
    by simp
qed

theorem errC_send_never_blocks_witness:
  "exec1 both_sending (init1 [task_A, task_B]) \<noteq> None \<and>
   exec2 both_sending (init2 [task_A, task_B]) \<noteq> None \<and>
   map snd (gos (the (exec1 both_sending (init1 [task_A, task_B])))) =
     [Sending (Err ''task A''), Deferred None] \<and>
   chan_buf (errC (tg (the (exec1 both_sending (init1 [task_A, task_B]))))) = [Err ''task B''] \<and>
   chan_cap (errC (tg (the (exec1 both_sending (init1 [task_A, task_B]))))) = 2 \<and>
   send_ready (the (exec1 both_sending (init1 [task_A, task_B]))) \<and>
   length (by_task 1 (sent (hist (the (exec1 both_sending (init1 [task_A, task_B])))))) \<le> 1 \<and>
   chan_cap (errC (tg (the (exec2 both_sending (init2 [task_A, task_B]))))) = 2 \<and>
   send_ready (the (exec2 both_sending (init2 [task_A, task_B]))) \<and>
   length (by_task 1 (sent (hist (the (exec2 both_sending (init2 [task_A, task_B])))))) \<le> 1"
proof -
  have ne1: "exec1 both_sending (init1 [task_A, task_B]) \<noteq> None"
    by (simp add: both_sending_def task_A_def task_B_def run_defs)
  have ne2: "exec2 both_sending (init2 [task_A, task_B]) \<noteq> None"
    by (simp add: both_sending_def task_A_def task_B_def run_defs)
  have r1: "exec1 both_sending (init1 [task_A, task_B]) =
            Some (the (exec1 both_sending (init1 [task_A, task_B])))"
    using ne1 by auto
  have r2: "exec2 both_sending (init2 [task_A, task_B]) =
            Some (the (exec2 both_sending (init2 [task_A, task_B])))"
    using ne2 by auto
  have g: "map snd (gos (the (exec1 both_sending (init1 [task_A, task_B])))) =
     [Sending (Err ''task A''), Deferred None]"
    by (simp add: both_sending_def task_A_def task_B_def run_defs)
  have b: "chan_buf (errC (tg (the (exec1 both_sending (init1 [task_A, task_B]))))) = [Err ''task B'']"
    by (simp add: both_sending_def task_A_def task_B_def run_defs)
  have l: "length [task_A, task_B] = 2" by simp
  from errC_send_never_blocks [OF r1 r2, unfolded l] ne1 ne2 g b show ?thesis by blast
qed

section \<open>The deferred decrement of the wait group\<close>

text \<open>
  Claim C3: the counter of the wait group is decremented exactly once for each task execution,
  on every exit path. In every interleaving of either version the counter is the number of
  task goroutines whose deferred \<open>wg.Done()\<close> has not run; the history holds one \<open>DoneCalled i\<close>
  for a goroutine that has ended (normally or by a panic of its task) and none for one that
  has not; a goroutine at its send always goes on to the deferred call; and a goroutine at
  the deferred call, reached by a return (\<open>q = None\<close>) or by a panic (\<open>q = Some q'\<close>), always
  decrements the counter by one.
\<close>

theorem wg_Done_exactly_once:
  assumes "exec1 sched1 (init1 ts) = Some p1" and "exec2 sched2 (init2 ts) = Some p2"
  shows "wg (tg p1) = int (n_active (gos p1)) \<and>
         (\<forall>i. count_list (hist p1) (DoneCalled i) =
               (if i < length (gos p1) \<and> \<not> active (snd (gos p1 ! i)) then 1 else 0)) \<and>
         (\<forall>i e. i < length (gos p1) \<and> snd (gos p1 ! i) = Sending e \<and> crash p1 = None \<longrightarrow>
               step1 (Go i) p1 =
                 Some (set_pc i (Deferred None) (emit (Sent i e)
                   (p1\<lparr>tg := (tg p1)\<lparr>errC := (errC (tg p1))\<lparr>chan_buf := chan_buf (errC (tg p1)) @ [e]\<rparr>\<rparr>\<rparr>)))) \<and>
         (\<forall>i q. i < length (gos p1) \<and> snd (gos p1 ! i) = Deferred q \<and> crash p1 = None \<longrightarrow>
               step1 (Go i) p1 =
                 Some (set_pc i (case q of None \<Rightarrow> Exited | Some q' \<Rightarrow> Unwound q')
                   (emit (DoneCalled i) (p1\<lparr>tg := (tg p1)\<lparr>wg := wg (tg p1) - 1\<rparr>\<rparr>)))) \<and>
         wg (tg p2) = int (n_active (gos p2)) \<and>
         (\<forall>i. count_list (hist p2) (DoneCalled i) =
               (if i < length (gos p2) \<and> \<not> active (snd (gos p2 ! i)) then 1 else 0)) \<and>
         (\<forall>i e. i < length (gos p2) \<and> snd (gos p2 ! i) = Sending e \<and> crash p2 = None \<longrightarrow>
               step2 (Go i) p2 =
                 Some (set_pc i (Deferred None) (emit (Sent i e)
                   (p2\<lparr>tg := (tg p2)\<lparr>errC := (errC (tg p2))\<lparr>chan_buf := chan_buf (errC (tg p2)) @ [e]\<rparr>\<rparr>\<rparr>)))) \<and>
         (\<forall>i q. i < length (gos p2) \<and> snd (gos p2 ! i) = Deferred q \<and> crash p2 = None \<longrightarrow>
               step2 (Go i) p2 =
                 Some (set_pc i (case q of None \<Rightarrow> Exited | Some q' \<Rightarrow> Unwound q')
                   (emit (DoneCalled i) (p2\<lparr>tg := (tg p2)\<lparr>wg := wg (tg p2) - 1\<rparr>\<rparr>))))"
proof -
  have i1: "inv ts p1" and i2: "inv ts p2"
    using reach1_inv [OF assms(1)] reach2_inv [OF assms(2)] by simp_all
  have h1: "hinv p1" and h2: "hinv p2"
    using reach1_hinv [OF assms(1)] reach2_hinv [OF assms(2)] by simp_all
  have w1: "wg (tg p1) = int (n_active (gos p1))" using i1 by (simp add: inv_def)
  have w2: "wg (tg p2) = int (n_active (gos p2))" using i2 by (simp add: inv_def)
  have s1: "step1 (Go i) p1 = step_go i p1" if "crash p1 = None" for i
    using that by (simp add: step1_def)
  have s2: "step2 (Go i) p2 = step_go i p2" if "crash p2 = None" for i
    using that by (simp add: step2_def)
  show ?thesis
    using w1 w2 done_count [OF h1] done_count [OF h2]
      send_step [OF i1] send_step [OF i2] done_step [OF i1] done_step [OF i2] s1 s2
    by simp
qed

theorem wg_Done_exactly_once_witness:
  "exec1 fault_and_error (init1 [task_panic, task_A]) \<noteq> None \<and>
   exec2 fault_and_error (init2 [task_panic, task_A]) \<noteq> None \<and>
   map snd (gos (the (exec1 fault_and_error (init1 [task_panic, task_A])))) =
     [Deferred (Some TaskPanic), Sending (Err ''task A'')] \<and>
   map snd (gos (the (exec2 fault_and_error (init2 [task_panic, task_A])))) =
     [Deferred (Some TaskPanic), Sending (Err ''task A'')] \<and>
   crash (the (exec1 fault_and_error (init1 [task_panic, task_A]))) = None \<and>
   crash (the (exec2 fault_and_error (init2 [task_panic, task_A]))) = None \<and>
   wg (tg (the (exec1 fault_and_error (init1 [task_panic, task_A])))) = 2 \<and>
   wg (tg (the (exec2 fault_and_error (init2 [task_panic, task_A])))) = 2 \<and>
   count_list (hist (the (exec1 fault_and_error (init1 [task_panic, task_A])))) (DoneCalled 0) = 0 \<and>
   count_list (hist (the (exec2 fault_and_error (init2 [task_panic, task_A])))) (DoneCalled 0) = 0 \<and>
   wg (tg (the (step1 (Go 0) (the (exec1 fault_and_error (init1 [task_panic, task_A])))))) = 1 \<and>
   wg (tg (the (step2 (Go 0) (the (exec2 fault_and_error (init2 [task_panic, task_A])))))) = 1 \<and>
   map snd (gos (the (step1 (Go 0) (the (exec1 fault_and_error (init1 [task_panic, task_A])))))) =
     [Unwound TaskPanic, Sending (Err ''task A'')] \<and>
   map snd (gos (the (step2 (Go 0) (the (exec2 fault_and_error (init2 [task_panic, task_A])))))) =
     [Unwound TaskPanic, Sending (Err ''task A'')] \<and>
   map snd (gos (the (step1 (Go 1) (the (exec1 fault_and_error (init1 [task_panic, task_A])))))) =
     [Deferred (Some TaskPanic), Deferred None] \<and>
   map snd (gos (the (step2 (Go 1) (the (exec2 fault_and_error (init2 [task_panic, task_A])))))) =
     [Deferred (Some TaskPanic), Deferred None]"
proof -
  have ne1: "exec1 fault_and_error (init1 [task_panic, task_A]) \<noteq> None"
    by (simp add: fault_and_error_def task_panic_def task_A_def run_defs)
  have ne2: "exec2 fault_and_error (init2 [task_panic, task_A]) \<noteq> None"
    by (simp add: fault_and_error_def task_panic_def task_A_def run_defs)
  have r1: "exec1 fault_and_error (init1 [task_panic, task_A]) =
            Some (the (exec1 fault_and_error (init1 [task_panic, task_A])))"
    using ne1 by auto
  have r2: "exec2 fault_and_error (init2 [task_panic, task_A]) =
            Some (the (exec2 fault_and_error (init2 [task_panic, task_A])))"
    using ne2 by auto
  have g1: "map snd (gos (the (exec1 fault_and_error (init1 [task_panic, task_A])))) =
     [Deferred (Some TaskPanic), Sending (Err ''task A'')]"
    by (simp add: fault_and_error_def task_panic_def task_A_def run_defs)
  have g2: "map snd (gos (the (exec2 fault_and_error (init2 [task_panic, task_A])))) =
     [Deferred (Some TaskPanic), Sending (Err ''task A'')]"
    by (simp add: fault_and_error_def task_panic_def task_A_def run_defs)
  have c1: "crash (the (exec1 fault_and_error (init1 [task_panic, task_A]))) = None"
    by (simp add: fault_and_error_def task_panic_def task_A_def run_defs)
  have c2: "crash (the (exec2 fault_and_error (init2 [task_panic, task_A]))) = None"
    by (simp add: fault_and_error_def task_panic_def task_A_def run_defs)
  have l1: "length (gos (the (exec1 fault_and_error (init1 [task_panic, task_A])))) = 2"
    using g1 by (metis length_map length_Cons list.size(3) numeral_2_eq_2)
  have l2: "length (gos (the (exec2 fault_and_error (init2 [task_panic, task_A])))) = 2"
    using g2 by (metis length_map length_Cons list.size(3) numeral_2_eq_2)
  have s1: "snd (gos (the (exec1 fault_and_error (init1 [task_panic, task_A]))) ! 0) = Deferred (Some TaskPanic)"
    "snd (gos (the (exec1 fault_and_error (init1 [task_panic, task_A]))) ! 1) = Sending (Err ''task A'')"
    using g1 by (auto simp: list_eq_iff_nth_eq dest!: spec [of _ 0] spec [of _ 1])
  have s2: "snd (gos (the (exec2 fault_and_error (init2 [task_panic, task_A]))) ! 0) = Deferred (Some TaskPanic)"
    "snd (gos (the (exec2 fault_and_error (init2 [task_panic, task_A]))) ! 1) = Sending (Err ''task A'')"
    using g2 by (auto simp: list_eq_iff_nth_eq dest!: spec [of _ 0] spec [of _ 1])
  note t = wg_Done_exactly_once [OF r1 r2]
  have a1: "n_active (gos (the (exec1 fault_and_error (init1 [task_panic, task_A])))) = 2"
    by (simp add: fault_and_error_def task_panic_def task_A_def run_defs n_active_def)
  have a2: "n_active (gos (the (exec2 fault_and_error (init2 [task_panic, task_A])))) = 2"
    by (simp add: fault_and_error_def task_panic_def task_A_def run_defs n_active_def)
  have w1: "wg (tg (the (exec1 fault_and_error (init1 [task_panic, task_A])))) = 2"
    using t a1 by simp
  have w2: "wg (tg (the (exec2 fault_and_error (init2 [task_panic, task_A])))) = 2"
    using t a2 by simp
  have d1: "count_list (hist (the (exec1 fault_and_error (init1 [task_panic, task_A])))) (DoneCalled 0) = 0"
    using t s1(1) l1 by simp
  have d2: "count_list (hist (the (exec2 fault_and_error (init2 [task_panic, task_A])))) (DoneCalled 0) = 0"
    using t s2(1) l2 by simp
  have x1: "step1 (Go 0) (the (exec1 fault_and_error (init1 [task_panic, task_A]))) =
      Some (set_pc 0 (Unwound TaskPanic) (emit (DoneCalled 0)
        ((the (exec1 fault_and_error (init1 [task_panic, task_A])))
          \<lparr>tg := (tg (the (exec1 fault_and_error (init1 [task_panic, task_A]))))
             \<lparr>wg := wg (tg (the (exec1 fault_and_error (init1 [task_panic, task_A])))) - 1\<rparr>\<rparr>)))"
    using t s1(1) l1 c1 by simp
  have x2: "step2 (Go 0) (the (exec2 fault_and_error (init2 [task_panic, task_A]))) =
      Some (set_pc 0 (Unwound TaskPanic) (emit (DoneCalled 0)
        ((the (exec2 fault_and_error (init2 [task_panic, task_A])))
          \<lparr>tg := (tg (the (exec2 fault_and_error (init2 [task_panic, task_A]))))
             \<lparr>wg := wg (tg (the (exec2 fault_and_error (init2 [task_panic, task_A])))) - 1\<rparr>\<rparr>)))"
    using t s2(1) l2 c2 by simp
  have y1: "step1 (Go 1) (the (exec1 fault_and_error (init1 [task_panic, task_A]))) =
      Some (set_pc 1 (Deferred None) (emit (Sent 1 (Err ''task A''))
        ((the (exec1 fault_and_error (init1 [task_panic, task_A])))
          \<lparr>tg := (tg (the (exec1 fault_and_error (init1 [task_panic, task_A]))))
             \<lparr>errC := (errC (tg (the (exec1 fault_and_error (init1 [task_panic, task_A])))))
                \<lparr>chan_buf := chan_buf (errC (tg (the (exec1 fault_and_error (init1 [task_panic, task_A]))))) @ [Err ''task A'']\<rparr>\<rparr>\<rparr>)))"
    using t s1(2) l1 c1 by simp
  have y2: "step2 (Go 1) (the (exec2 fault_and_error (init2 [task_panic, task_A]))) =
      Some (set_pc 1 (Deferred None) (emit (Sent 1 (Err ''task A''))
        ((the (exec2 fault_and_error (init2 [task_panic, task_A])))
          \<lparr>tg := (tg (the (exec2 fault_and_error (init2 [task_panic, task_A]))))
             \<lparr>errC := (errC (tg (the (exec2 fault_and_error (init2 [task_panic, task_A])))))
                \<lparr>chan_buf := chan_buf (errC (tg (the (exec2 fault_and_error (init2 [task_panic, task_A]))))) @ [Err ''task A'']\<rparr>\<rparr>\<rparr>)))"
    using t s2(2) l2 c2 by simp
  have z1: "wg (tg (the (step1 (Go 0) (the (exec1 fault_and_error (init1 [task_panic, task_A])))))) = 1"
    unfolding x1 using w1 by (simp add: set_pc_def emit_def)
  have z2: "wg (tg (the (step2 (Go 0) (the (exec2 fault_and_error (init2 [task_panic, task_A])))))) = 1"
    unfolding x2 using w2 by (simp add: set_pc_def emit_def)
  have u1: "map snd (gos (the (step1 (Go 0) (the (exec1 fault_and_error (init1 [task_panic, task_A])))))) =
     [Unwound TaskPanic, Sending (Err ''task A'')]"
    unfolding x1 using g1 by (simp add: set_pc_def emit_def map_update)
  have u2: "map snd (gos (the (step2 (Go 0) (the (exec2 fault_and_error (init2 [task_panic, task_A])))))) =
     [Unwound TaskPanic, Sending (Err ''task A'')]"
    unfolding x2 using g2 by (simp add: set_pc_def emit_def map_update)
  have v1: "map snd (gos (the (step1 (Go 1) (the (exec1 fault_and_error (init1 [task_panic, task_A])))))) =
     [Deferred (Some TaskPanic), Deferred None]"
    unfolding y1 using g1 by (simp add: set_pc_def emit_def map_update)
  have v2: "map snd (gos (the (step2 (Go 1) (the (exec2 fault_and_error (init2 [task_panic, task_A])))))) =
     [Deferred (Some TaskPanic), Deferred None]"
    unfolding y2 using g2 by (simp add: set_pc_def emit_def map_update)
  from ne1 ne2 g1 g2 c1 c2 w1 w2 d1 d2 z1 z2 u1 u2 v1 v2 show ?thesis by blast
qed

section \<open>Cancellation\<close>

text \<open>
  Claim C4: \<open>Cancel\<close> is idempotent and safe to repeat. On the group of every interleaving of
  either version, \<open>Cancel\<close> returns without a panic and leaves the cancellation channel closed;
  a call on a cancelled group changes nothing; any number \<open>n + 1\<close> of calls has the effect of
  one; over a whole interleaving, with calls of \<open>Cancel\<close> placed anywhere among the steps of
  the other goroutines, the channel is closed by at most one call, no call ends the program
  with a close of a closed channel, and a call is never blocked.
\<close>

theorem Cancel_idempotent:
  assumes "exec1 sched1 (init1 ts) = Some p1" and "exec2 sched2 (init2 ts) = Some p2"
  shows "Cancel (tg p1) = Inr (cancelled (tg p1)) \<and>
         Cancel (cancelled (tg p1)) = Inr (cancelled (tg p1)) \<and>
         Cancel_n (Suc n) (tg p1) = Cancel (tg p1) \<and>
         count_list (hist p1) (CancelCalled True) \<le> 1 \<and>
         crash p1 \<noteq> Some CloseOfClosedChannel \<and>
         (crash p1 \<noteq> None \<or> watcher p1 = NotSpawned \<or> step1 CallCancel p1 \<noteq> None) \<and>
         Cancel (tg p2) = Inr (cancelled (tg p2)) \<and>
         Cancel (cancelled (tg p2)) = Inr (cancelled (tg p2)) \<and>
         Cancel_n (Suc n) (tg p2) = Cancel (tg p2) \<and>
         count_list (hist p2) (CancelCalled True) \<le> 1 \<and>
         crash p2 \<noteq> Some CloseOfClosedChannel \<and>
         (crash p2 \<noteq> None \<or> watcher p2 = NotSpawned \<or> step2 CallCancel p2 \<noteq> None)"
proof -
  have i1: "inv ts p1" and i2: "inv ts p2"
    using reach1_inv [OF assms(1)] reach2_inv [OF assms(2)] by simp_all
  have h1: "hinv p1" and h2: "hinv p2"
    using reach1_hinv [OF assms(1)] reach2_hinv [OF assms(2)] by simp_all
  note c1 = cancel_facts [OF i1 h1]
  note c2 = cancel_facts [OF i2 h2]
  have e1: "crash p1 \<noteq> None \<or> watcher p1 = NotSpawned \<or> step1 CallCancel p1 \<noteq> None"
    using c1(5) by (auto simp: step1_def)
  have e2: "crash p2 \<noteq> None \<or> watcher p2 = NotSpawned \<or> step2 CallCancel p2 \<noteq> None"
    using c2(5) by (auto simp: step2_def)
  show ?thesis
    using c1(1-4) c2(1-4) e1 e2 Cancel_cancelled [of "tg p1"] Cancel_cancelled [of "tg p2"]
    by simp
qed

theorem Cancel_idempotent_witness:
  "exec1 cancel_thrice (init1 [task_wait]) \<noteq> None \<and>
   exec2 cancel_thrice (init2 [task_wait]) \<noteq> None \<and>
   filter (\<lambda>ev. ev = CancelCalled True \<or> ev = CancelCalled False)
      (hist (the (exec1 cancel_thrice (init1 [task_wait])))) =
     [CancelCalled True, CancelCalled False, CancelCalled False] \<and>
   Cancel_n 100 (tg (the (exec1 cancel_thrice (init1 [task_wait])))) =
     Cancel (tg (the (exec1 cancel_thrice (init1 [task_wait])))) \<and>
   Cancel_n 100 (tg (the (exec2 cancel_thrice (init2 [task_wait])))) =
     Cancel (tg (the (exec2 cancel_thrice (init2 [task_wait])))) \<and>
   Cancel (tg (the (exec1 cancel_thrice (init1 [task_wait])))) =
     Inr (tg (the (exec1 cancel_thrice (init1 [task_wait])))) \<and>
   Cancel (tg (the (exec2 cancel_thrice (init2 [task_wait])))) =
     Inr (tg (the (exec2 cancel_thrice (init2 [task_wait])))) \<and>
   crash (the (exec1 cancel_thrice (init1 [task_wait]))) = None \<and>
   crash (the (exec2 cancel_thrice (init2 [task_wait]))) = None \<and>
   watcher (the (exec1 cancel_thrice (init1 [task_wait]))) \<noteq> NotSpawned \<and>
   watcher (the (exec2 cancel_thrice (init2 [task_wait]))) \<noteq> NotSpawned \<and>
   step1 CallCancel (the (exec1 cancel_thrice (init1 [task_wait]))) \<noteq> None \<and>
   step2 CallCancel (the (exec2 cancel_thrice (init2 [task_wait]))) \<noteq> None \<and>
   count_list (hist (the (exec1 cancel_thrice (init1 [task_wait])))) (CancelCalled True) \<le> 1 \<and>
   count_list (hist (the (exec2 cancel_thrice (init2 [task_wait])))) (CancelCalled True) \<le> 1"
proof -
  have ne1: "exec1 cancel_thrice (init1 [task_wait]) \<noteq> None"
    by (simp add: cancel_thrice_def task_wait_def run_defs)
  have ne2: "exec2 cancel_thrice (init2 [task_wait]) \<noteq> None"
    by (simp add: cancel_thrice_def task_wait_def run_defs)
  have r1: "exec1 cancel_thrice (init1 [task_wait]) = Some (the (exec1 cancel_thrice (init1 [task_wait])))"
    using ne1 by auto
  have r2: "exec2 cancel_thrice (init2 [task_wait]) = Some (the (exec2 cancel_thrice (init2 [task_wait])))"
    using ne2 by auto
  have f: "filter (\<lambda>ev. ev = CancelCalled True \<or> ev = CancelCalled False)
      (hist (the (exec1 cancel_thrice (init1 [task_wait])))) =
     [CancelCalled True, CancelCalled False, CancelCalled False]"
    by (simp add: cancel_thrice_def task_wait_def run_defs)
  have k1: "cancelled (tg (the (exec1 cancel_thrice (init1 [task_wait])))) =
            tg (the (exec1 cancel_thrice (init1 [task_wait])))"
    by (simp add: cancel_thrice_def task_wait_def run_defs cancelled_def)
  have k2: "cancelled (tg (the (exec2 cancel_thrice (init2 [task_wait])))) =
            tg (the (exec2 cancel_thrice (init2 [task_wait])))"
    by (simp add: cancel_thrice_def task_wait_def run_defs cancelled_def)
  have x1: "crash (the (exec1 cancel_thrice (init1 [task_wait]))) = None"
    by (simp add: cancel_thrice_def task_wait_def run_defs)
  have x2: "crash (the (exec2 cancel_thrice (init2 [task_wait]))) = None"
    by (simp add: cancel_thrice_def task_wait_def run_defs)
  have w1: "watcher (the (exec1 cancel_thrice (init1 [task_wait]))) \<noteq> NotSpawned"
    by (simp add: cancel_thrice_def task_wait_def run_defs)
  have w2: "watcher (the (exec2 cancel_thrice (init2 [task_wait]))) \<noteq> NotSpawned"
    by (simp add: cancel_thrice_def task_wait_def run_defs)
  have s: "(100::nat) = Suc 99" by simp
  from Cancel_idempotent [OF r1 r2, of 99, folded s, unfolded k1 k2] ne1 ne2 f x1 x2 w1 w2
  show ?thesis by blast
qed

section \<open>What the error channel delivers\<close>

text \<open>
  Claim C5: once the error channel is closed, the errors received from it together with those
  still in its buffer are, as a multiset, the errors the tasks returned; each goroutine has
  sent exactly what its task returned, at most one error, nothing for \<open>nil\<close>; and the channel
  is closed only when all the tasks have been started and no task goroutine is active.
\<close>

theorem errC_delivers_returned_errors:
  assumes "exec1 sched1 (init1 ts) = Some p1" and "chan_closed (errC (tg p1))"
      and "exec2 sched2 (init2 ts) = Some p2" and "chan_closed (errC (tg p2))"
  shows "mset (received (hist p1)) + mset (chan_buf (errC (tg p1))) = mset (map snd (returned (hist p1))) \<and>
         (\<forall>i. by_task i (sent (hist p1)) = by_task i (returned (hist p1)) \<and>
              length (by_task i (returned (hist p1))) \<le> 1) \<and>
         length (gos p1) = length ts \<and> n_active (gos p1) = 0 \<and>
         mset (received (hist p2)) + mset (chan_buf (errC (tg p2))) = mset (map snd (returned (hist p2))) \<and>
         (\<forall>i. by_task i (sent (hist p2)) = by_task i (returned (hist p2)) \<and>
              length (by_task i (returned (hist p2))) \<le> 1) \<and>
         length (gos p2) = length ts \<and> n_active (gos p2) = 0"
proof -
  have i1: "inv ts p1" and i2: "inv ts p2"
    using reach1_inv [OF assms(1)] reach2_inv [OF assms(3)] by simp_all
  have h1: "hinv p1" and h2: "hinv p2"
    using reach1_hinv [OF assms(1)] reach2_hinv [OF assms(3)] by simp_all
  note d1 = delivered_is_returned [OF i1 h1 assms(2)]
  note d2 = delivered_is_returned [OF i2 h2 assms(4)]
  have s1: "by_task i (sent (hist p1)) = by_task i (returned (hist p1))" for i
    by (rule sent_is_returned [OF h1 d1(2)])
  have s2: "by_task i (sent (hist p2)) = by_task i (returned (hist p2))" for i
    by (rule sent_is_returned [OF h2 d2(2)])
  have l1: "length (by_task i (returned (hist p1))) \<le> 1" for i
    using sent_at_most_once [OF h1, of i] s1 [of i] by simp
  have l2: "length (by_task i (returned (hist p2))) \<le> 1" for i
    using sent_at_most_once [OF h2, of i] s2 [of i] by simp
  show ?thesis
    using d1 d2 s1 s2 l1 l2 by simp
qed

theorem errC_delivers_returned_errors_witness:
  "exec1 drain1 (init1 [task_A, task_B]) \<noteq> None \<and>
   exec2 drain2 (init2 [task_A, task_B]) \<noteq> None \<and>
   chan_closed (errC (tg (the (exec1 drain1 (init1 [task_A, task_B]))))) \<and>
   chan_closed (errC (tg (the (exec2 drain2 (init2 [task_A, task_B]))))) \<and>
   received (hist (the (exec1 drain1 (init1 [task_A, task_B])))) = [Err ''task B''] \<and>
   received (hist (the (exec2 drain2 (init2 [task_A, task_B])))) = [Err ''task B''] \<and>
   chan_buf (errC (tg (the (exec1 drain1 (init1 [task_A, task_B]))))) = [Err ''task A''] \<and>
   chan_buf (errC (tg (the (exec2 drain2 (init2 [task_A, task_B]))))) = [Err ''task A''] \<and>
   mset [Err ''task B''] + mset [Err ''task A''] =
     mset (map snd (returned (hist (the (exec1 drain1 (init1 [task_A, task_B])))))) \<and>
   mset [Err ''task B''] + mset [Err ''task A''] =
     mset (map snd (returned (hist (the (exec2 drain2 (init2 [task_A, task_B])))))) \<and>
   length (gos (the (exec1 drain1 (init1 [task_A, task_B])))) = 2 \<and>
   length (gos (the (exec2 drain2 (init2 [task_A, task_B])))) = 2 \<and>
   n_active (gos (the (exec1 drain1 (init1 [task_A, task_B])))) = 0 \<and>
   n_active (gos (the (exec2 drain2 (init2 [task_A, task_B])))) = 0"
proof -
  have ne1: "exec1 drain1 (init1 [task_A, task_B]) \<noteq> None"
    by (simp add: drain1_def task_A_def task_B_def run_defs)
  have ne2: "exec2 drain2 (init2 [task_A, task_B]) \<noteq> None"
    by (simp add: drain2_def task_A_def task_B_def run_defs)
  have r1: "exec1 drain1 (init1 [task_A, task_B]) = Some (the (exec1 drain1 (init1 [task_A, task_B])))"
    using ne1 by auto
  have r2: "exec2 drain2 (init2 [task_A, task_B]) = Some (the (exec2 drain2 (init2 [task_A, task_B])))"
    using ne2 by auto
  have c1: "chan_closed (errC (tg (the (exec1 drain1 (init1 [task_A, task_B])))))"
    by (simp add: drain1_def task_A_def task_B_def run_defs)
  have c2: "chan_closed (errC (tg (the (exec2 drain2 (init2 [task_A, task_B])))))"
    by (simp add: drain2_def task_A_def task_B_def run_defs)
  have v1: "received (hist (the (exec1 drain1 (init1 [task_A, task_B])))) = [Err ''task B'']"
    by (simp add: drain1_def task_A_def task_B_def run_defs received_def)
  have v2: "received (hist (the (exec2 drain2 (init2 [task_A, task_B])))) = [Err ''task B'']"
    by (simp add: drain2_def task_A_def task_B_def run_defs received_def)
  have b1: "chan_buf (errC (tg (the (exec1 drain1 (init1 [task_A, task_B]))))) = [Err ''task A'']"
    by (simp add: drain1_def task_A_def task_B_def run_defs)
  have b2: "chan_buf (errC (tg (the (exec2 drain2 (init2 [task_A, task_B]))))) = [Err ''task A'']"
    by (simp add: drain2_def task_A_def task_B_def run_defs)
  note t = errC_delivers_returned_errors [OF r1 c1 r2 c2]
  have m1: "mset [Err ''task B''] + mset [Err ''task A''] =
     mset (map snd (returned (hist (the (exec1 drain1 (init1 [task_A, task_B]))))))"
    using t unfolding v1 b1 by blast
  have m2: "mset [Err ''task B''] + mset [Err ''task A''] =
     mset (map snd (returned (hist (the (exec2 drain2 (init2 [task_A, task_B]))))))"
    using t unfolding v2 b2 by blast
  have l1: "length (gos (the (exec1 drain1 (init1 [task_A, task_B])))) = 2"
    using t by simp
  have l2: "length (gos (the (exec2 drain2 (init2 [task_A, task_B])))) = 2"
    using t by simp
  from t ne1 ne2 c1 c2 v1 v2 b1 b2 m1 m2 l1 l2 show ?thesis by blast
qed

section \<open>The field tasks\<close>

text \<open>
  Claim C6 says that the field \<open>tasks\<close> holds exactly the \<open>N\<close> tasks given to the constructor.
  The struct literal stores the argument in \<open>tasks\<close> and \<open>startTask\<close> appends each task again:
  for one task \<open>task_A\<close> the field holds \<open>[task_A, task_A]\<close> when the constructor returns, in
  both versions.
\<close>

theorem tasks_field_doubled:
  "NewFixedTaskGroup1 [task_A] \<noteq> None \<and>
   tasks (tg (the (NewFixedTaskGroup1 [task_A]))) = [task_A, task_A] \<and>
   NewFixedTaskGroup2 [task_A] \<noteq> None \<and>
   tasks (tg (the (NewFixedTaskGroup2 [task_A]))) = [task_A, task_A]"
  by (simp add: NewFixedTaskGroup1_def NewFixedTaskGroup2_def task_A_def run_defs)

section \<open>Construction\<close>

text \<open>
  Claim C7: \<open>NewFixedTaskGroup\<close> never fails, and a group of no tasks closes its channels at
  once. For every list of tasks the constructor returns, without a panic, with one goroutine
  started per task and the watcher started. In every interleaving of a group of no tasks the
  program never panics, the wait group counter is zero, the buffer of \<open>errC\<close> is empty, no
  error has been received, and the watcher is never blocked: until it has ended it can always
  take its next step.
\<close>

theorem NewFixedTaskGroup_never_fails:
  assumes "exec1 sched1 (init1 []) = Some p1" and "exec2 sched2 (init2 []) = Some p2"
  shows "NewFixedTaskGroup1 ts \<noteq> None \<and> crash (the (NewFixedTaskGroup1 ts)) = None \<and>
         gos (the (NewFixedTaskGroup1 ts)) = spawned ts \<and>
         watcher (the (NewFixedTaskGroup1 ts)) = WRunning 0 [] \<and>
         NewFixedTaskGroup2 ts \<noteq> None \<and> crash (the (NewFixedTaskGroup2 ts)) = None \<and>
         gos (the (NewFixedTaskGroup2 ts)) = spawned ts \<and>
         watcher (the (NewFixedTaskGroup2 ts)) = WRunning 0 [] \<and>
         quiet p1 \<and> (watcher p1 = NotSpawned \<or> watcher p1 = WExited \<or> step1 Watch p1 \<noteq> None) \<and>
         quiet p2 \<and> (watcher p2 = NotSpawned \<or> watcher p2 = WExited \<or> step2 Watch p2 \<noteq> None)"
proof -
  obtain q1 where q1: "NewFixedTaskGroup1 ts = Some q1" "crash q1 = None" "gos q1 = spawned ts"
    "watcher q1 = WRunning 0 []"
    using NewFixedTaskGroup1_returns [of ts] by blast
  obtain q2 where q2: "NewFixedTaskGroup2 ts = Some q2" "crash q2 = None" "gos q2 = spawned ts"
    "watcher q2 = WRunning 0 []"
    using NewFixedTaskGroup2_returns [of ts] by blast
  have s1: "quiet (init1 [])" and s2: "quiet (init2 [])"
    by (simp_all add: quiet_def init1_def init2_def make_chan_def received_def)
  have w1: "winv1 (init1 [])" and w2: "winv2 (init2 [])"
    by (simp_all add: winv1_def winv2_def init1_def init2_def make_chan_def)
  have a1: "quiet p1" by (rule exec1_quiet [OF assms(1) inv_init1 w1 s1])
  have a2: "quiet p2" by (rule exec2_quiet [OF assms(2) inv_init2 w2 s2])
  have b1: "watcher p1 = NotSpawned \<or> watcher p1 = WExited \<or> step1 Watch p1 \<noteq> None"
    using watch1_enabled [OF a1] reach1_inv [OF assms(1)] by blast
  have b2: "watcher p2 = NotSpawned \<or> watcher p2 = WExited \<or> step2 Watch p2 \<noteq> None"
    using watch2_enabled [OF a2] reach2_inv [OF assms(2)] by blast
  show ?thesis
    using q1 q2 a1 a2 b1 b2 by simp
qed

theorem NewFixedTaskGroup_never_fails_witness:
  "exec1 empty_group1 (init1 ([] :: error Task list)) \<noteq> None \<and>
   exec2 empty_group2 (init2 ([] :: error Task list)) \<noteq> None \<and>
   NewFixedTaskGroup1 [task_A, task_B] \<noteq> None \<and>
   NewFixedTaskGroup2 [task_A, task_B] \<noteq> None \<and>
   crash (the (NewFixedTaskGroup1 [task_A, task_B])) = None \<and>
   crash (the (NewFixedTaskGroup2 [task_A, task_B])) = None \<and>
   hist (the (exec1 empty_group1 (init1 ([] :: error Task list)))) =
     [CtorReturned, Waited, DeferPushed, ClosedErrC, RecvErr None] \<and>
   hist (the (exec2 empty_group2 (init2 ([] :: error Task list)))) =
     [CtorReturned, DeferPushed, DeferPushed, Waited, ClosedDoneC, ClosedErrC, RecvDone, RecvErr None] \<and>
   chan_closed (errC (tg (the (exec1 empty_group1 (init1 ([] :: error Task list)))))) \<and>
   chan_closed (errC (tg (the (exec2 empty_group2 (init2 ([] :: error Task list)))))) \<and>
   chan_closed (doneC (tg (the (exec2 empty_group2 (init2 ([] :: error Task list)))))) \<and>
   quiet (the (exec1 empty_group1 (init1 ([] :: error Task list)))) \<and>
   quiet (the (exec2 empty_group2 (init2 ([] :: error Task list)))) \<and>
   step1 Watch (the (exec1 empty_group1 (init1 ([] :: error Task list)))) \<noteq> None \<and>
   step2 Watch (the (exec2 empty_group2 (init2 ([] :: error Task list)))) \<noteq> None"
proof -
  have ne1: "exec1 empty_group1 (init1 ([] :: error Task list)) \<noteq> None"
    by (simp add: empty_group1_def run_defs)
  have ne2: "exec2 empty_group2 (init2 ([] :: error Task list)) \<noteq> None"
    by (simp add: empty_group2_def run_defs)
  have r1: "exec1 empty_group1 (init1 ([] :: error Task list)) =
            Some (the (exec1 empty_group1 (init1 ([] :: error Task list))))"
    using ne1 by auto
  have r2: "exec2 empty_group2 (init2 ([] :: error Task list)) =
            Some (the (exec2 empty_group2 (init2 ([] :: error Task list))))"
    using ne2 by auto
  have h1: "hist (the (exec1 empty_group1 (init1 ([] :: error Task list)))) =
     [CtorReturned, Waited, DeferPushed, ClosedErrC, RecvErr None]"
    by (simp add: empty_group1_def run_defs)
  have h2: "hist (the (exec2 empty_group2 (init2 ([] :: error Task list)))) =
     [CtorReturned, DeferPushed, DeferPushed, Waited, ClosedDoneC, ClosedErrC, RecvDone, RecvErr None]"
    by (simp add: empty_group2_def run_defs)
  have c1: "chan_closed (errC (tg (the (exec1 empty_group1 (init1 ([] :: error Task list))))))"
    by (simp add: empty_group1_def run_defs)
  have c2: "chan_closed (errC (tg (the (exec2 empty_group2 (init2 ([] :: error Task list))))))"
    by (simp add: empty_group2_def run_defs)
  have d2: "chan_closed (doneC (tg (the (exec2 empty_group2 (init2 ([] :: error Task list))))))"
    by (simp add: empty_group2_def run_defs)
  have w1: "watcher (the (exec1 empty_group1 (init1 ([] :: error Task list)))) = WReturning [] None"
    by (simp add: empty_group1_def run_defs)
  have w2: "watcher (the (exec2 empty_group2 (init2 ([] :: error Task list)))) = WReturning [] None"
    by (simp add: empty_group2_def run_defs)
  note t = NewFixedTaskGroup_never_fails [OF r1 r2, of "[task_A, task_B]"]
  have e1: "step1 Watch (the (exec1 empty_group1 (init1 ([] :: error Task list)))) \<noteq> None"
    using t w1 by auto
  have e2: "step2 Watch (the (exec2 empty_group2 (init2 ([] :: error Task list)))) \<noteq> None"
    using t w2 by auto
  from t ne1 ne2 h1 h2 c1 c2 d2 e1 e2 show ?thesis by blast
qed

section \<open>One invocation for each task\<close>

text \<open>
  Claim C9: every task given to the constructor is invoked exactly once, although the field
  \<open>tasks\<close> holds each of them twice. Once the constructor has returned, in every interleaving
  of either version, the goroutines are one per given task, in order (duplicates each have
  their own); \<open>tasks\<close> is the given list twice; the history holds one \<open>Invoked i\<close> for a
  goroutine that has left its start and none otherwise; and a goroutine at its start can
  always take the step that invokes its task.
\<close>

theorem each_task_invoked_once:
  assumes "exec1 sched1 (init1 ts) = Some p1" and "watcher p1 \<noteq> NotSpawned"
      and "exec2 sched2 (init2 ts) = Some p2" and "watcher p2 \<noteq> NotSpawned"
  shows "map fst (gos p1) = ts \<and> tasks (tg p1) = ts @ ts \<and>
         (\<forall>i. count_list (hist p1) (Invoked i) =
               (if i < length ts \<and> snd (gos p1 ! i) \<noteq> Spawned then 1 else 0)) \<and>
         (\<forall>i. i < length ts \<and> snd (gos p1 ! i) = Spawned \<and> crash p1 = None \<longrightarrow>
               step1 (Go i) p1 = Some (set_pc i Running (emit (Invoked i) p1))) \<and>
         map fst (gos p2) = ts \<and> tasks (tg p2) = ts @ ts \<and>
         (\<forall>i. count_list (hist p2) (Invoked i) =
               (if i < length ts \<and> snd (gos p2 ! i) \<noteq> Spawned then 1 else 0)) \<and>
         (\<forall>i. i < length ts \<and> snd (gos p2 ! i) = Spawned \<and> crash p2 = None \<longrightarrow>
               step2 (Go i) p2 = Some (set_pc i Running (emit (Invoked i) p2)))"
proof -
  have i1: "inv ts p1" and i2: "inv ts p2"
    using reach1_inv [OF assms(1)] reach2_inv [OF assms(3)] by simp_all
  have h1: "hinv p1" and h2: "hinv p2"
    using reach1_hinv [OF assms(1)] reach2_hinv [OF assms(3)] by simp_all
  note t1 = tasks_after_return [OF i1 assms(2)]
  note t2 = tasks_after_return [OF i2 assms(4)]
  have l1: "length (gos p1) = length ts" using t1 by (metis length_map)
  have l2: "length (gos p2) = length ts" using t2 by (metis length_map)
  have c1: "count_list (hist p1) (Invoked i) =
               (if i < length ts \<and> snd (gos p1 ! i) \<noteq> Spawned then 1 else 0)" for i
    using invoked_count [OF h1, of i] l1 by simp
  have c2: "count_list (hist p2) (Invoked i) =
               (if i < length ts \<and> snd (gos p2 ! i) \<noteq> Spawned then 1 else 0)" for i
    using invoked_count [OF h2, of i] l2 by simp
  have e1: "i < length ts \<and> snd (gos p1 ! i) = Spawned \<and> crash p1 = None \<longrightarrow>
               step1 (Go i) p1 = Some (set_pc i Running (emit (Invoked i) p1))" for i
    using invoke_enabled [of i p1] l1 by (simp add: step1_def)
  have e2: "i < length ts \<and> snd (gos p2 ! i) = Spawned \<and> crash p2 = None \<longrightarrow>
               step2 (Go i) p2 = Some (set_pc i Running (emit (Invoked i) p2))" for i
    using invoke_enabled [of i p2] l2 by (simp add: step2_def)
  show ?thesis
    using t1 t2 c1 c2 e1 e2 by simp
qed

theorem each_task_invoked_once_witness:
  "exec1 same_task_twice (init1 [task_nil, task_nil]) \<noteq> None \<and>
   exec2 same_task_twice (init2 [task_nil, task_nil]) \<noteq> None \<and>
   watcher (the (exec1 same_task_twice (init1 [task_nil, task_nil]))) \<noteq> NotSpawned \<and>
   watcher (the (exec2 same_task_twice (init2 [task_nil, task_nil]))) \<noteq> NotSpawned \<and>
   map snd (gos (the (exec1 same_task_twice (init1 [task_nil, task_nil])))) = [Exited, Spawned] \<and>
   map snd (gos (the (exec2 same_task_twice (init2 [task_nil, task_nil])))) = [Exited, Spawned] \<and>
   crash (the (exec1 same_task_twice (init1 [task_nil, task_nil]))) = None \<and>
   crash (the (exec2 same_task_twice (init2 [task_nil, task_nil]))) = None \<and>
   tasks (tg (the (exec1 same_task_twice (init1 [task_nil, task_nil])))) =
     [task_nil, task_nil, task_nil, task_nil] \<and>
   tasks (tg (the (exec2 same_task_twice (init2 [task_nil, task_nil])))) =
     [task_nil, task_nil, task_nil, task_nil] \<and>
   count_list (hist (the (exec1 same_task_twice (init1 [task_nil, task_nil])))) (Invoked 0) = 1 \<and>
   count_list (hist (the (exec1 same_task_twice (init1 [task_nil, task_nil])))) (Invoked 1) = 0 \<and>
   count_list (hist (the (exec2 same_task_twice (init2 [task_nil, task_nil])))) (Invoked 0) = 1 \<and>
   count_list (hist (the (exec2 same_task_twice (init2 [task_nil, task_nil])))) (Invoked 1) = 0 \<and>
   step1 (Go 1) (the (exec1 same_task_twice (init1 [task_nil, task_nil]))) \<noteq> None \<and>
   step2 (Go 1) (the (exec2 same_task_twice (init2 [task_nil, task_nil]))) \<noteq> None"
proof -
  have ne1: "exec1 same_task_twice (init1 [task_nil, task_nil]) \<noteq> None"
    by (simp add: same_task_twice_def task_nil_def run_defs)
  have ne2: "exec2 same_task_twice (init2 [task_nil, task_nil]) \<noteq> None"
    by (simp add: same_task_twice_def task_nil_def run_defs)
  have r1: "exec1 same_task_twice (init1 [task_nil, task_nil]) =
            Some (the (exec1 same_task_twice (init1 [task_nil, task_nil])))"
    using ne1 by auto
  have r2: "exec2 same_task_twice (init2 [task_nil, task_nil]) =
            Some (the (exec2 same_task_twice (init2 [task_nil, task_nil])))"
    using ne2 by auto
  have w1: "watcher (the (exec1 same_task_twice (init1 [task_nil, task_nil]))) \<noteq> NotSpawned"
    by (simp add: same_task_twice_def task_nil_def run_defs)
  have w2: "watcher (the (exec2 same_task_twice (init2 [task_nil, task_nil]))) \<noteq> NotSpawned"
    by (simp add: same_task_twice_def task_nil_def run_defs)
  have g1: "map snd (gos (the (exec1 same_task_twice (init1 [task_nil, task_nil])))) = [Exited, Spawned]"
    by (simp add: same_task_twice_def task_nil_def run_defs)
  have g2: "map snd (gos (the (exec2 same_task_twice (init2 [task_nil, task_nil])))) = [Exited, Spawned]"
    by (simp add: same_task_twice_def task_nil_def run_defs)
  have c1: "crash (the (exec1 same_task_twice (init1 [task_nil, task_nil]))) = None"
    by (simp add: same_task_twice_def task_nil_def run_defs)
  have c2: "crash (the (exec2 same_task_twice (init2 [task_nil, task_nil]))) = None"
    by (simp add: same_task_twice_def task_nil_def run_defs)
  note t = each_task_invoked_once [OF r1 w1 r2 w2]
  have s1: "snd (gos (the (exec1 same_task_twice (init1 [task_nil, task_nil]))) ! 0) = Exited"
    "snd (gos (the (exec1 same_task_twice (init1 [task_nil, task_nil]))) ! 1) = Spawned"
    using g1 by (auto simp: list_eq_iff_nth_eq dest!: spec [of _ 0] spec [of _ 1])
  have s2: "snd (gos (the (exec2 same_task_twice (init2 [task_nil, task_nil]))) ! 0) = Exited"
    "snd (gos (the (exec2 same_task_twice (init2 [task_nil, task_nil]))) ! 1) = Spawned"
    using g2 by (auto simp: list_eq_iff_nth_eq dest!: spec [of _ 0] spec [of _ 1])
  have a0: "count_list (hist (the (exec1 same_task_twice (init1 [task_nil, task_nil])))) (Invoked 0) = 1"
    and a1: "count_list (hist (the (exec1 same_task_twice (init1 [task_nil, task_nil])))) (Invoked 1) = 0"
    and a2: "step1 (Go 1) (the (exec1 same_task_twice (init1 [task_nil, task_nil]))) \<noteq> None"
    using t s1 c1 by simp_all
  have b0: "count_list (hist (the (exec2 same_task_twice (init2 [task_nil, task_nil])))) (Invoked 0) = 1"
    and b1: "count_list (hist (the (exec2 same_task_twice (init2 [task_nil, task_nil])))) (Invoked 1) = 0"
    and b2: "step2 (Go 1) (the (exec2 same_task_twice (init2 [task_nil, task_nil]))) \<noteq> None"
    using t s2 c2 by simp_all
  have tt: "[task_nil, task_nil] @ [task_nil, task_nil] = [task_nil, task_nil, task_nil, task_nil]"
    by simp
  from t [unfolded tt] ne1 ne2 w1 w2 g1 g2 c1 c2 a0 a1 a2 b0 b1 b2 show ?thesis by blast
qed

section \<open>The sentinel error\<close>

text \<open>
  Claim C8: the group does not look at which error a task returns. Let the tasks return any
  other error \<open>e'\<close> wherever they would return the sentinel \<open>ErrTaskCancelled\<close>; then, in both
  versions and for every schedule, the program takes the same steps (the same step is enabled
  or blocked, the same send onto \<open>errC\<close>, the same decrement of the wait group), and its
  state and history are those of the original run with \<open>e'\<close> in place of the sentinel.
\<close>

theorem sentinel_not_special:
  "exec1 sched1 (init1 (map (map_Task (replace_sentinel e')) ts)) =
     map_option (map_prog (replace_sentinel e')) (exec1 sched1 (init1 ts)) \<and>
   exec2 sched2 (init2 (map (map_Task (replace_sentinel e')) ts)) =
     map_option (map_prog (replace_sentinel e')) (exec2 sched2 (init2 ts))"
  by (simp add: map_init1 map_init2 map_exec1 map_exec2)

section \<open>The two versions\<close>

text \<open>
  Claim C10: the two versions of \<open>FixedTaskGroup\<close> behave the same on what they share. For the
  same tasks, every state the first version reaches is related by \<open>rel\<close> to a state the
  second version reaches, and the other way round: the same field \<open>tasks\<close>, wait group
  counter, error channel (capacity, buffered errors, closed or not), cancellation channel and
  \<open>Once\<close>, the same task goroutines, the same panic, if any, and the same history of
  shared events (errors returned, sent and received, results of \<open>Cancel\<close>, the wait of the
  watcher and the closing of \<open>errC\<close>).
\<close>

theorem versions_equivalent:
  assumes "exec1 sched1 (init1 ts) = Some p1" and "exec2 sched2 (init2 ts) = Some p2"
  shows "(\<exists>sched p. exec2 sched (init2 ts) = Some p \<and> rel p1 p) \<and>
         (\<exists>sched p. exec1 sched (init1 ts) = Some p \<and> rel p p2)"
proof -
  have w: "winv2 (init2 ts)"
    by (simp add: winv2_def init2_def make_chan_def)
  show ?thesis
    using exec1_sim [OF assms(1) rel_init inv_init2 w] exec2_sim [OF assms(2) rel_init inv_init2 w]
    by blast
qed

theorem versions_equivalent_witness:
  "exec1 drain1 (init1 [task_A, task_B]) \<noteq> None \<and>
   exec2 drain2 (init2 [task_A, task_B]) \<noteq> None \<and>
   rel (the (exec1 drain1 (init1 [task_A, task_B]))) (the (exec2 drain2 (init2 [task_A, task_B]))) \<and>
   (\<exists>sched p. exec2 sched (init2 [task_A, task_B]) = Some p \<and>
      rel (the (exec1 drain1 (init1 [task_A, task_B]))) p) \<and>
   (\<exists>sched p. exec1 sched (init1 [task_A, task_B]) = Some p \<and>
      rel p (the (exec2 drain2 (init2 [task_A, task_B]))))"
proof -
  have ne1: "exec1 drain1 (init1 [task_A, task_B]) \<noteq> None"
    by (simp add: drain1_def task_A_def task_B_def run_defs)
  have ne2: "exec2 drain2 (init2 [task_A, task_B]) \<noteq> None"
    by (simp add: drain2_def task_A_def task_B_def run_defs)
  have r1: "exec1 drain1 (init1 [task_A, task_B]) = Some (the (exec1 drain1 (init1 [task_A, task_B])))"
    using ne1 by auto
  have r2: "exec2 drain2 (init2 [task_A, task_B]) = Some (the (exec2 drain2 (init2 [task_A, task_B])))"
    using ne2 by auto
  have r: "rel (the (exec1 drain1 (init1 [task_A, task_B]))) (the (exec2 drain2 (init2 [task_A, task_B])))"
    by (simp add: drain1_def drain2_def task_A_def task_B_def run_defs rel_def shared_def)
  from versions_equivalent [OF r1 r2] ne1 ne2 r show ?thesis by blast
qed

end
